theory Spec2Isabelle
  imports Complex_Main
begin

section \<open>Data model (models.py)\<close>

text \<open>
  A Python \<^verbatim>\<open>str\<close> is a sequence of Unicode code points; a character is modelled
  by its code point, so that \<^verbatim>\<open>ord(c)\<close> is the identity and the order on characters
  is the order on code points.
\<close>

type_synonym pychar = nat
type_synonym pystr = "pychar list"

datatype AlgorithmType = SHANNON | APPROXIMATE | SAMPLE | PERMUTATION | MULTISCALE

datatype EncodingModel = ORDINAL | ONE_HOT | FREQUENCY | BINARY

fun algorithm_value :: "AlgorithmType \<Rightarrow> string" where
  "algorithm_value SHANNON = ''shannon_entropy''"
| "algorithm_value APPROXIMATE = ''approximate_entropy''"
| "algorithm_value SAMPLE = ''sample_entropy''"
| "algorithm_value PERMUTATION = ''permutation_entropy''"
| "algorithm_value MULTISCALE = ''multiscale_entropy''"

fun encoding_value :: "EncodingModel \<Rightarrow> string" where
  "encoding_value ORDINAL = ''ordinal''"
| "encoding_value ONE_HOT = ''one_hot''"
| "encoding_value FREQUENCY = ''frequency''"
| "encoding_value BINARY = ''binary''"

text \<open>
  Floating-point values are modelled by exact reals together with the three special
  values the code can produce (\<^verbatim>\<open>inf\<close>, \<^verbatim>\<open>-inf\<close>, \<^verbatim>\<open>nan\<close>); rounding and the sign of
  zero are not modelled.
\<close>

datatype fl = Fin real | PInf | NInf | NaN

record EntropyResult =
  encoding :: string
  algorithm :: string
  entropy :: fl

text \<open>
  Every exception of the code is a \<^verbatim>\<open>ValueError\<close> (or is wrapped into one); the
  constructors keep the parts of the message that identify the failure.
\<close>

datatype error =
    InvalidInput                        \<comment> \<open>Input data must be a non-empty string\<close>
  | DuplicateEncodings                  \<comment> \<open>Duplicate encoding models detected\<close>
  | DuplicateAlgorithms                 \<comment> \<open>Duplicate algorithms detected\<close>
  | UnsupportedAlgorithms "AlgorithmType list"  \<comment> \<open>Unsupported algorithm types: [...]\<close>
  | EncodingFailed EncodingModel        \<comment> \<open>Encoding failed for model ...\<close>
  | UnsupportedAlgorithmType AlgorithmType  \<comment> \<open>Unsupported algorithm type: ...\<close>
  | NotFinite                           \<comment> \<open>Calculated entropy is not finite\<close>
  | CalcError AlgorithmType error       \<comment> \<open>Error calculating entropy with ...: ...\<close>
  | ProcessingError EncodingModel error \<comment> \<open>Error processing encoding ...: ...\<close>
  | NoResults                           \<comment> \<open>No entropy results were calculated\<close>
  | KeyError                            \<comment> \<open>a dictionary lookup of a missing key\<close>
  | IndexError                          \<comment> \<open>an array index out of bounds\<close>
  | NegativeDimensions                  \<comment> \<open>numpy: negative dimensions are not allowed\<close>
  | EmptyReduction                      \<comment> \<open>max of an empty sequence\<close>
  | ZeroStep                            \<comment> \<open>slice step cannot be zero\<close>

subsection \<open>Sequencing of computations that may raise\<close>

fun mapM :: "('a \<Rightarrow> error + 'b) \<Rightarrow> 'a list \<Rightarrow> error + 'b list" where
  "mapM f [] = Inr []"
| "mapM f (x # xs) =
     (case f x of
        Inl e \<Rightarrow> Inl e
      | Inr y \<Rightarrow> (case mapM f xs of Inl e \<Rightarrow> Inl e | Inr ys \<Rightarrow> Inr (y # ys)))"

fun foldM :: "('a \<Rightarrow> 's \<Rightarrow> error + 's) \<Rightarrow> 'a list \<Rightarrow> 's \<Rightarrow> error + 's" where
  "foldM f [] s = Inr s"
| "foldM f (x # xs) s = (case f x s of Inl e \<Rightarrow> Inl e | Inr s' \<Rightarrow> foldM f xs s')"

definition lookup :: "('k \<rightharpoonup> 'v) \<Rightarrow> 'k \<Rightarrow> error + 'v" where
  "lookup d k = (case d k of None \<Rightarrow> Inl KeyError | Some v \<Rightarrow> Inr v)"

section \<open>Encoder (chaos\_encoder.py)\<close>

text \<open>
  An encoded sequence is a one-dimensional numeric array; its elements are reals.
  Functions carry the names of the source's methods without the leading underscore.
\<close>

definition ordinal_encode :: "pystr \<Rightarrow> real list" where
  "ordinal_encode txt = map real txt"

text \<open>
  \<^verbatim>\<open>encoded[i, char_to_idx[char]] = 1\<close> on the list of rows; both indices are checked
  as numpy does.
\<close>

definition set_cell :: "real list list \<Rightarrow> nat \<Rightarrow> nat \<Rightarrow> error + real list list" where
  "set_cell rows i j =
     (if i < length rows \<and> j < length (rows ! i)
      then Inr (rows[i := (rows ! i)[j := 1]]) else Inl IndexError)"

definition one_hot_encode :: "pystr \<Rightarrow> error + real list" where
  "one_hot_encode txt =
     (let unique_chars = sort (remdups txt);
          char_to_idx = map_of (zip unique_chars [0 ..< length unique_chars]);
          encoded = replicate (length txt) (replicate (length unique_chars) 0)
      in case foldM (\<lambda>(i, char) enc.
                case lookup char_to_idx char of
                  Inl e \<Rightarrow> Inl e
                | Inr j \<Rightarrow> set_cell enc i j)
              (enumerate 0 txt) encoded of
           Inl e \<Rightarrow> Inl e
         | Inr enc \<Rightarrow> Inr (concat enc))"

definition char_freq :: "pystr \<Rightarrow> (pychar \<rightharpoonup> nat)" where
  "char_freq txt =
     fold (\<lambda>char d. d(char \<mapsto> (case d char of None \<Rightarrow> 0 | Some n \<Rightarrow> n) + 1)) txt Map.empty"

definition frequency_encode :: "pystr \<Rightarrow> error + real list" where
  "frequency_encode txt =
     (let total_chars = length txt
      in mapM (\<lambda>c. case lookup (char_freq txt) c of
                      Inl e \<Rightarrow> Inl e
                    | Inr n \<Rightarrow> Inr (real n / real total_chars)) txt)"

text \<open>
  \<^verbatim>\<open>format(n, "08b")\<close>: the binary digits of \<^verbatim>\<open>n\<close>, most significant first, padded
  with zeros on the left to a width of at least 8.
\<close>

definition bit_char :: "nat \<Rightarrow> char" where
  "bit_char d = (if d = 0 then CHR ''0'' else CHR ''1'')"

fun bin_str :: "nat \<Rightarrow> string" where
  "bin_str n = (if n < 2 then [bit_char n] else bin_str (n div 2) @ [bit_char (n mod 2)])"

declare bin_str.simps [simp del]

definition format_08b :: "nat \<Rightarrow> string" where
  "format_08b n = (let s = bin_str n in replicate (8 - length s) (CHR ''0'') @ s)"

text \<open>\<^verbatim>\<open>int(b)\<close> on a decimal digit character.\<close>

definition int_of_digit :: "char \<Rightarrow> int" where
  "int_of_digit b = int (of_char b) - 48"

definition binary_encode :: "pystr \<Rightarrow> real list" where
  "binary_encode txt =
     map of_int
       (fold (\<lambda>char binary_list. binary_list @ map int_of_digit (format_08b char)) txt [])"

text \<open>
  The dispatch of \<^verbatim>\<open>encode\<close>; every member of the enumeration has a method, so the
  test for an unsupported model never fires.
\<close>

fun encode :: "pystr \<Rightarrow> EncodingModel \<Rightarrow> error + real list" where
  "encode txt ORDINAL = Inr (ordinal_encode txt)"
| "encode txt ONE_HOT = one_hot_encode txt"
| "encode txt FREQUENCY = frequency_encode txt"
| "encode txt BINARY = Inr (binary_encode txt)"


section \<open>Floating-point arithmetic on the special values\<close>

fun isfinite :: "fl \<Rightarrow> bool" where
  "isfinite (Fin x) = True"
| "isfinite PInf = False"
| "isfinite NInf = False"
| "isfinite NaN = False"

fun fl_neg :: "fl \<Rightarrow> fl" where
  "fl_neg (Fin x) = Fin (- x)"
| "fl_neg PInf = NInf"
| "fl_neg NInf = PInf"
| "fl_neg NaN = NaN"

fun fl_abs :: "fl \<Rightarrow> fl" where
  "fl_abs (Fin x) = Fin \<bar>x\<bar>"
| "fl_abs PInf = PInf"
| "fl_abs NInf = PInf"
| "fl_abs NaN = NaN"

fun fl_add :: "fl \<Rightarrow> fl \<Rightarrow> fl" where
  "fl_add (Fin x) (Fin y) = Fin (x + y)"
| "fl_add NaN b = NaN"
| "fl_add a NaN = NaN"
| "fl_add PInf NInf = NaN"
| "fl_add NInf PInf = NaN"
| "fl_add PInf b = PInf"
| "fl_add a PInf = PInf"
| "fl_add NInf b = NInf"
| "fl_add a NInf = NInf"

definition fl_sub :: "fl \<Rightarrow> fl \<Rightarrow> fl" where
  "fl_sub a b = fl_add a (fl_neg b)"

text \<open>Division; a zero divisor is the positive zero.\<close>

fun fl_div :: "fl \<Rightarrow> fl \<Rightarrow> fl" where
  "fl_div (Fin x) (Fin y) =
     (if y \<noteq> 0 then Fin (x / y) else if x = 0 then NaN else if 0 < x then PInf else NInf)"
| "fl_div NaN b = NaN"
| "fl_div a NaN = NaN"
| "fl_div (Fin x) PInf = Fin 0"
| "fl_div (Fin x) NInf = Fin 0"
| "fl_div PInf (Fin y) = (if 0 \<le> y then PInf else NInf)"
| "fl_div NInf (Fin y) = (if 0 \<le> y then NInf else PInf)"
| "fl_div PInf b = NaN"
| "fl_div NInf b = NaN"

text \<open>\<^verbatim>\<open>np.log\<close> on a real argument: \<^verbatim>\<open>-inf\<close> at zero, \<^verbatim>\<open>nan\<close> below.\<close>

definition np_log :: "real \<Rightarrow> fl" where
  "np_log x = (if 0 < x then Fin (ln x) else if x = 0 then NInf else NaN)"

text \<open>\<^verbatim>\<open>np.sum\<close> and Python's \<^verbatim>\<open>sum\<close>, starting from zero.\<close>

definition fl_sum :: "fl list \<Rightarrow> fl" where
  "fl_sum xs = fold (\<lambda>x acc. fl_add acc x) xs (Fin 0)"

section \<open>Algorithm library (algorithms.py)\<close>

subsection \<open>Shannon entropy\<close>

text \<open>The counts of \<^verbatim>\<open>np.unique(data, return_counts=True)\<close>, in the order of the sorted
  distinct values.\<close>

definition unique_counts :: "real list \<Rightarrow> nat list" where
  "unique_counts data = map (count_list data) (sort (remdups data))"

definition shannon_entropy :: "real list \<Rightarrow> int \<Rightarrow> fl" where
  "shannon_entropy data base =
     (let counts = unique_counts data;
          probabilities = map (\<lambda>c. real c / real (length data)) counts
      in if base = 2 then Fin (- sum_list (map (\<lambda>p. p * log 2 p) probabilities))
         else fl_neg (fl_sum (map (\<lambda>p. fl_div (Fin (p * ln p)) (np_log (of_int base)))
                                probabilities)))"

subsection \<open>Windows and the Chebyshev distance\<close>

text \<open>\<^verbatim>\<open>time_series[i : i + dim]\<close>\<close>

definition window :: "real list \<Rightarrow> nat \<Rightarrow> nat \<Rightarrow> real list" where
  "window ts i dm = take dm (drop i ts)"

text \<open>\<^verbatim>\<open>abs(u - v)\<close> on two windows of the same length.\<close>

definition abs_diff :: "real list \<Rightarrow> real list \<Rightarrow> real list" where
  "abs_diff u v = map2 (\<lambda>a b. \<bar>a - b\<bar>) u v"

fun maximum :: "real list \<Rightarrow> error + real" where
  "maximum [] = Inl EmptyReduction"
| "maximum (x # xs) = Inr (fold max xs x)"

subsection \<open>Approximate entropy\<close>

text \<open>
  The embedding dimension is a natural number. \<^verbatim>\<open>np.zeros(N - m_val + 1)\<close> raises
  for a negative size; \<^verbatim>\<open>count[i] += 1\<close> updates the array of counts in place.
\<close>

definition phi_count :: "real list \<Rightarrow> real \<Rightarrow> nat \<Rightarrow> error + real list" where
  "phi_count ts r m_val =
     (let n = length ts + 1 - m_val
      in foldM (\<lambda>i count.
           let template = window ts i m_val
           in foldM (\<lambda>j count.
                case maximum (abs_diff template (window ts j m_val)) of
                  Inl e \<Rightarrow> Inl e
                | Inr d \<Rightarrow> Inr (if d < r then count[i := count ! i + 1] else count))
              [0 ..< n] count)
         [0 ..< n] (replicate n 0))"

definition phi :: "real list \<Rightarrow> real \<Rightarrow> nat \<Rightarrow> error + fl" where
  "phi ts r m_val =
     (let N = length ts
      in if N + 1 < m_val then Inl NegativeDimensions
         else case phi_count ts r m_val of
                Inl e \<Rightarrow> Inl e
              | Inr count \<Rightarrow>
                  Inr (fl_div (fl_sum (map (\<lambda>c. np_log (c / real (N + 1 - m_val))) count))
                         (Fin (real (N + 1 - m_val)))))"

definition approximate_entropy :: "real list \<Rightarrow> nat \<Rightarrow> real \<Rightarrow> error + fl" where
  "approximate_entropy ts m r =
     (case phi ts r m of
        Inl e \<Rightarrow> Inl e
      | Inr a \<Rightarrow> (case phi ts r (m + 1) of
                    Inl e \<Rightarrow> Inl e
                  | Inr b \<Rightarrow> Inr (fl_abs (fl_sub a b))))"

subsection \<open>Sample entropy\<close>

definition create_vectors :: "real list \<Rightarrow> nat \<Rightarrow> real list list" where
  "create_vectors ts dm = map (\<lambda>i. window ts i dm) [0 ..< length ts + 1 - dm]"

text \<open>\<^verbatim>\<open>np.max(np.abs(x - xs), axis=1)\<close>\<close>

definition distances :: "real list \<Rightarrow> real list list \<Rightarrow> error + real list" where
  "distances x xs = mapM (\<lambda>v. maximum (abs_diff x v)) xs"

text \<open>One of the two counting loops: \<^verbatim>\<open>for i in range(k): ... += np.sum(...)\<close>.\<close>

definition count_matches :: "real list list \<Rightarrow> real \<Rightarrow> nat \<Rightarrow> error + nat" where
  "count_matches xs r k =
     foldM (\<lambda>i acc.
        case distances (xs ! i) xs of
          Inl e \<Rightarrow> Inl e
        | Inr ds \<Rightarrow> Inr (acc + length (filter (\<lambda>j. ds ! j < r \<and> j \<noteq> i) [0 ..< length ds])))
       [0 ..< k] 0"

definition sample_entropy :: "real list \<Rightarrow> nat \<Rightarrow> real \<Rightarrow> error + fl" where
  "sample_entropy ts m r =
     (let N = length ts;
          xm = create_vectors ts m;
          xm1 = create_vectors ts (m + 1)
      in case count_matches xm r (N - m) of
           Inl e \<Rightarrow> Inl e
         | Inr B \<Rightarrow>
             (case count_matches xm1 r (N - m - 1) of
                Inl e \<Rightarrow> Inl e
              | Inr A \<Rightarrow>
                  Inr (if 0 < B \<and> 0 < A then fl_neg (np_log (real A / real B)) else PInf)))"

subsection \<open>Permutation entropy\<close>

text \<open>
  The order and the delay are natural numbers. A slice with step 0 raises; the loop has
  \<^verbatim>\<open>n - delay * (order - 1)\<close> iterations, which is \<^verbatim>\<open>n + delay\<close> for order 0.
  \<^verbatim>\<open>time_series[i : i + delay * order : delay]\<close> for a positive step:
\<close>

definition strided :: "real list \<Rightarrow> nat \<Rightarrow> nat \<Rightarrow> nat \<Rightarrow> real list" where
  "strided ts i ord delay =
     map (\<lambda>k. ts ! (i + k * delay)) (filter (\<lambda>k. i + k * delay < length ts) [0 ..< ord])"

text \<open>
  \<^verbatim>\<open>np.argsort\<close>: the permutation of the indices that sorts the pattern. In patterns
  of up to three elements, which is what the orchestrator sorts (order 3), equal
  elements keep their order. For longer patterns with equal elements numpy's default
  sort is not stable and the order it gives to them is not modelled; the definition
  is exact there only for patterns of pairwise distinct elements.
\<close>

definition argsort :: "real list \<Rightarrow> nat list" where
  "argsort pattern = sort_key (\<lambda>i. pattern ! i) [0 ..< length pattern]"

text \<open>The dictionary of pattern counts, in insertion order.\<close>

fun bump :: "'k \<Rightarrow> ('k \<times> nat) list \<Rightarrow> ('k \<times> nat) list" where
  "bump k [] = [(k, 1)]"
| "bump k ((k', c) # d) = (if k = k' then (k', c + 1) # d else (k', c) # bump k d)"

definition permutation_entropy :: "real list \<Rightarrow> nat \<Rightarrow> nat \<Rightarrow> error + fl" where
  "permutation_entropy ts ord delay =
     (let n = length ts;
          n_windows = (if ord = 0 then n + delay else n - delay * (ord - 1))
      in if delay = 0 \<and> 0 < n_windows then Inl ZeroStep
         else
           let permutation_counts =
                 fold (\<lambda>i d. bump (argsort (strided ts i ord delay)) d) [0 ..< n_windows] [];
               total = sum_list (map snd permutation_counts);
               probabilities = map (\<lambda>(k, c). real c / real total) permutation_counts
           in Inr (Fin (- sum_list (map (\<lambda>p. p * log 2 p) probabilities))))"

subsection \<open>Standard deviation\<close>

text \<open>
  \<^verbatim>\<open>np.std(x, ddof=d)\<close> on a sequence with more than \<^verbatim>\<open>d\<close> elements;
  \<^verbatim>\<open>x.std()\<close> is \<^verbatim>\<open>np.std(x, ddof=0)\<close>.
\<close>

definition np_mean :: "real list \<Rightarrow> real" where
  "np_mean xs = sum_list xs / real (length xs)"

definition np_std :: "nat \<Rightarrow> real list \<Rightarrow> real" where
  "np_std ddof xs =
     sqrt (sum_list (map (\<lambda>x. (x - np_mean xs)\<^sup>2) xs) / (real (length xs) - real ddof))"

subsection \<open>Multiscale entropy\<close>

text \<open>
  \<^verbatim>\<open>_coarse_grain\<close>: the means of the \<^verbatim>\<open>int(N / scale)\<close> consecutive blocks of length
  \<^verbatim>\<open>scale\<close>, for a scale of at least 1.
\<close>

definition coarse_grain :: "real list \<Rightarrow> nat \<Rightarrow> real list" where
  "coarse_grain ts scale =
     map (\<lambda>i. np_mean (take scale (drop (i * scale) ts))) [0 ..< length ts div scale]"

text \<open>
  The tolerance is scaled by \<^verbatim>\<open>np.std(time_series, ddof=1)\<close>, the sample standard
  deviation. For fewer than two elements this is \<^verbatim>\<open>nan\<close>; a comparison
  \<^verbatim>\<open>distances < nan\<close> is false, as is a comparison of a distance with 0, which
  stands for the tolerance in that case.
\<close>

definition multiscale_entropy :: "real list \<Rightarrow> nat \<Rightarrow> nat \<Rightarrow> real \<Rightarrow> error + fl list" where
  "multiscale_entropy ts scale_range m r =
     (let r' = (if 2 \<le> length ts then r * np_std 1 ts else 0)
      in mapM (\<lambda>scale. sample_entropy (coarse_grain ts scale) m r') [1 ..< scale_range + 1])"

section \<open>Orchestrator (order.py)\<close>

definition valid_algorithms :: "AlgorithmType set" where
  "valid_algorithms = {SHANNON, APPROXIMATE, SAMPLE, PERMUTATION}"

text \<open>
  \<^verbatim>\<open>0.2 * float(x.std())\<close>, the tolerance in the two \<^verbatim>\<open>lambda\<close> expressions of
  \<^verbatim>\<open>_get_algorithm_function\<close>. It is evaluated on non-empty sequences only.
\<close>

definition tolerance :: "real list \<Rightarrow> real" where
  "tolerance x = 0.2 * np_std 0 x"

fun get_algorithm_function :: "AlgorithmType \<Rightarrow> (real list \<Rightarrow> error + fl) option" where
  "get_algorithm_function SHANNON = Some (\<lambda>x. Inr (shannon_entropy x 2))"
| "get_algorithm_function APPROXIMATE = Some (\<lambda>x. approximate_entropy x 2 (tolerance x))"
| "get_algorithm_function SAMPLE = Some (\<lambda>x. sample_entropy x 2 (tolerance x))"
| "get_algorithm_function PERMUTATION = Some (\<lambda>x. permutation_entropy x 3 1)"
| "get_algorithm_function MULTISCALE = None"

definition calculate_entropy ::
  "real list \<Rightarrow> string \<Rightarrow> AlgorithmType \<Rightarrow> error + EntropyResult" where
  "calculate_entropy data enc alg =
     (case get_algorithm_function alg of
        None \<Rightarrow> Inl (UnsupportedAlgorithmType alg)
      | Some algo_func \<Rightarrow>
          (case algo_func data of
             Inl e \<Rightarrow> Inl (CalcError alg e)
           | Inr v \<Rightarrow>
               if \<not> isfinite v then Inl (CalcError alg NotFinite)
               else Inr \<lparr>encoding = enc, algorithm = algorithm_value alg, entropy = v\<rparr>))"

text \<open>
  The argument \<^verbatim>\<open>data\<close> is a string or some other Python value. The selections are
  lists of enumeration members, so the \<^verbatim>\<open>isinstance\<close> filter on the encodings finds
  nothing. The default list of algorithms is
  \<^verbatim>\<open>list(self._valid_algorithms)\<close>, the members of a set in its iteration order,
  which the code does not fix: it is the parameter \<open>dflt\<close>.
\<close>

datatype py_input = PyStr pystr | NotStr

datatype json = JStr string | JNum fl | JList "json list" | JObj "(string \<times> json) list"

datatype response = Results "EntropyResult list" | Json json

text \<open>
  The work performed by a call is recorded as a trace: one event for each call of the
  encoder and one for each entropy calculation.
\<close>

datatype event = Encode EncodingModel | Calculate EncodingModel AlgorithmType

text \<open>The input validation of \<^verbatim>\<open>get_stats\<close> (everything before the loop).\<close>

definition validate ::
  "AlgorithmType list \<Rightarrow> py_input \<Rightarrow> EncodingModel list option \<Rightarrow> AlgorithmType list option
   \<Rightarrow> error + (pystr \<times> EncodingModel list \<times> AlgorithmType list)" where
  "validate dflt data encodings algorithms =
     (case data of
        NotStr \<Rightarrow> Inl InvalidInput
      | PyStr s \<Rightarrow>
          if s = [] then Inl InvalidInput
          else
            (case (case encodings of
                     None \<Rightarrow> Inr [FREQUENCY]
                   | Some es \<Rightarrow>
                       if length (remdups es) \<noteq> length es then Inl DuplicateEncodings
                       else Inr es) of
               Inl e \<Rightarrow> Inl e
             | Inr es \<Rightarrow>
                 (case algorithms of
                    None \<Rightarrow> Inr (s, es, dflt)
                  | Some as \<Rightarrow>
                      if length (remdups as) \<noteq> length as then Inl DuplicateAlgorithms
                      else
                        let invalid_algos = filter (\<lambda>a. a \<notin> valid_algorithms) as
                        in if invalid_algos \<noteq> [] then Inl (UnsupportedAlgorithms invalid_algos)
                           else Inr (s, es, as))))"

text \<open>The inner loop over the algorithms, for one encoded sequence.\<close>

fun algorithm_loop ::
  "real list \<Rightarrow> EncodingModel \<Rightarrow> AlgorithmType list \<Rightarrow> event list \<Rightarrow> EntropyResult list
   \<Rightarrow> event list \<times> (error + EntropyResult list)" where
  "algorithm_loop d em [] trace results = (trace, Inr results)"
| "algorithm_loop d em (a # as) trace results =
     (case calculate_entropy d (encoding_value em) a of
        Inl e \<Rightarrow> (trace @ [Calculate em a], Inl e)
      | Inr res \<Rightarrow> algorithm_loop d em as (trace @ [Calculate em a]) (results @ [res]))"

text \<open>The outer loop over the encodings; an exception of its body is wrapped.\<close>

fun encoding_loop ::
  "pystr \<Rightarrow> EncodingModel list \<Rightarrow> AlgorithmType list \<Rightarrow> event list \<Rightarrow> EntropyResult list
   \<Rightarrow> event list \<times> (error + EntropyResult list)" where
  "encoding_loop s [] algs trace results = (trace, Inr results)"
| "encoding_loop s (em # ems) algs trace results =
     (case encode s em of
        Inl e \<Rightarrow> (trace @ [Encode em], Inl (ProcessingError em e))
      | Inr encoded_data \<Rightarrow>
          if length encoded_data = 0
          then (trace @ [Encode em], Inl (ProcessingError em (EncodingFailed em)))
          else
            (case algorithm_loop encoded_data em algs (trace @ [Encode em]) results of
               (trace', Inl e) \<Rightarrow> (trace', Inl (ProcessingError em e))
             | (trace', Inr results') \<Rightarrow> encoding_loop s ems algs trace' results'))"

definition json_document :: "EntropyResult list \<Rightarrow> json" where
  "json_document results =
     JObj [(''results'',
        JList (map (\<lambda>r. JObj [(''encoding'', JStr (encoding r)),
                               (''algorithm'', JStr (algorithm r)),
                               (''entropy'', JNum (entropy r))]) results))]"

definition get_stats ::
  "AlgorithmType list \<Rightarrow> py_input \<Rightarrow> EncodingModel list option \<Rightarrow> AlgorithmType list option
   \<Rightarrow> bool \<Rightarrow> event list \<times> (error + response)" where
  "get_stats dflt data encodings algorithms json_response =
     (case validate dflt data encodings algorithms of
        Inl e \<Rightarrow> ([], Inl e)
      | Inr (s, es, as) \<Rightarrow>
          (case encoding_loop s es as [] [] of
             (trace, Inl e) \<Rightarrow> (trace, Inl e)
           | (trace, Inr results) \<Rightarrow>
               if results = [] then (trace, Inl NoResults)
               else if json_response then (trace, Inr (Json (json_document results)))
               else (trace, Inr (Results results))))"

section \<open>Reference definitions for the properties\<close>

text \<open>The \<open>w\<close> binary digits of \<open>n\<close>, most significant first.\<close>

definition msb_bits :: "nat \<Rightarrow> nat \<Rightarrow> nat list" where
  "msb_bits w n = map (\<lambda>i. (n div 2 ^ (w - 1 - i)) mod 2) [0 ..< w]"

text \<open>The number of binary digits of \<open>n\<close> without leading zeros.\<close>

fun bit_length :: "nat \<Rightarrow> nat" where
  "bit_length n = (if n = 0 then 0 else Suc (bit_length (n div 2)))"

declare bit_length.simps [simp del]

text \<open>The index that \<^verbatim>\<open>char_to_idx\<close> assigns to a character of the text.\<close>

definition rank_of :: "pystr \<Rightarrow> pychar \<Rightarrow> nat" where
  "rank_of s c = the (map_of (zip (sort (remdups s)) [0 ..< length (sort (remdups s))]) c)"

text \<open>The Chebyshev distance of two windows: the largest absolute difference of
  corresponding coordinates.\<close>

definition chebyshev :: "real list \<Rightarrow> real list \<Rightarrow> real" where
  "chebyshev u v = Max (set (map2 (\<lambda>a b. \<bar>a - b\<bar>) u v))"

text \<open>
  The \<open>i\<close>-th contiguous window of length \<open>m\<close> of a sequence consists of the elements
  at the positions \<open>i, \<dots>, i + m - 1\<close>. The Chebyshev distance of the \<open>i\<close>-th and the
  \<open>j\<close>-th window, stated on the elements of the sequence:
\<close>

definition chebyshev_at :: "real list \<Rightarrow> nat \<Rightarrow> nat \<Rightarrow> nat \<Rightarrow> real" where
  "chebyshev_at ts m i j = Max ((\<lambda>k. \<bar>ts ! (i + k) - ts ! (j + k)\<bar>) ` {..< m})"

text \<open>The number of length-\<open>m\<close> windows, the \<open>i\<close>-th itself included, at Chebyshev
  distance less than \<open>r\<close> from the \<open>i\<close>-th; there are \<open>N - m + 1\<close> windows.\<close>

definition within_count :: "real list \<Rightarrow> nat \<Rightarrow> real \<Rightarrow> nat \<Rightarrow> nat" where
  "within_count ts m r i = card {j. j < length ts + 1 - m \<and> chebyshev_at ts m i j < r}"

text \<open>\<open>\<phi>(m) = (1 / (N - m + 1)) \<cdot> \<Sum> log (count\<^sub>i / (N - m + 1))\<close>, in floating-point
  arithmetic and, for positive counts, over the reals.\<close>

definition phi_spec :: "real list \<Rightarrow> nat \<Rightarrow> real \<Rightarrow> fl" where
  "phi_spec ts m r =
     (let n = length ts + 1 - m
      in fl_div (fl_sum (map (\<lambda>i. np_log (real (within_count ts m r i) / real n)) [0 ..< n]))
           (Fin (real n)))"

definition phi_real :: "real list \<Rightarrow> nat \<Rightarrow> real \<Rightarrow> real" where
  "phi_real ts m r =
     (let n = length ts + 1 - m
      in (1 / real n) * (\<Sum>i < n. ln (real (within_count ts m r i) / real n)))"

text \<open>The number of pairs \<open>(i, j)\<close>, \<open>j \<noteq> i\<close>, of length-\<open>dm\<close> windows at Chebyshev
  distance less than \<open>r\<close>, where \<open>i\<close> ranges over the first \<open>k\<close> windows and \<open>j\<close> over all
  \<open>N - dm + 1\<close> windows; with \<open>k = N - dm + 1\<close> both range over all windows.\<close>

definition pair_count :: "real list \<Rightarrow> nat \<Rightarrow> real \<Rightarrow> nat \<Rightarrow> nat" where
  "pair_count ts dm r k =
     length (filter (\<lambda>(i, j). j \<noteq> i \<and> chebyshev (window ts i dm) (window ts j dm) < r)
               (List.product [0 ..< k] [0 ..< length ts + 1 - dm]))"

definition all_pair_count :: "real list \<Rightarrow> nat \<Rightarrow> real \<Rightarrow> nat" where
  "all_pair_count ts dm r = pair_count ts dm r (length ts + 1 - dm)"

section \<open>Properties of the Binary encoding\<close>

lemma fold_extend: "fold (\<lambda>x acc. acc @ f x) xs a = a @ concat (map f xs)"
  by (induction xs arbitrary: a) simp_all

lemma binary_encode_concat:
  "binary_encode txt = concat (map (\<lambda>c. map (\<lambda>b. of_int (int_of_digit b)) (format_08b c)) txt)"
  by (simp add: binary_encode_def fold_extend map_concat comp_def)

lemma int_of_digit_bit_char: "d < 2 \<Longrightarrow> int_of_digit (bit_char d) = int d"
  by (auto simp: int_of_digit_def bit_char_def)

lemma msb_bits_Suc:
  "msb_bits (Suc w) n = msb_bits w (n div 2) @ [n mod 2]"
proof -
  have "n div 2 ^ (w - x) = n div 2 div 2 ^ (w - Suc x)" if "x < w" for x
  proof -
    from that have "w - x = Suc (w - Suc x)" by simp
    then show ?thesis by (simp add: div_mult2_eq)
  qed
  then show ?thesis by (simp add: msb_bits_def)
qed

lemma msb_bits_zero: "msb_bits w 0 = replicate w 0"
  by (simp add: msb_bits_def map_replicate_const)

lemma bin_str_pad:
  "n < 2 ^ w \<Longrightarrow> 0 < w \<Longrightarrow>
   replicate (w - length (bin_str n)) (CHR ''0'') @ bin_str n = map bit_char (msb_bits w n)"
proof (induction w arbitrary: n)
  case 0
  then show ?case by simp
next
  case (Suc w)
  show ?case
  proof (cases "n < 2")
    case True
    then have "n div 2 = 0" by simp
    with True show ?thesis
      by (simp add: bin_str.simps[of n] msb_bits_Suc msb_bits_zero bit_char_def)
  next
    case False
    with Suc.prems have w: "0 < w" by (cases w) auto
    from Suc.prems have "n div 2 < 2 ^ w" by auto
    from Suc.IH[OF this w] False show ?thesis
      by (simp add: bin_str.simps[of n] msb_bits_Suc Suc_diff_le)
  qed
qed



lemma bit_length_less: "n < 2 ^ w \<Longrightarrow> bit_length n \<le> w"
proof (induction w arbitrary: n)
  case 0 then show ?case by (simp add: bit_length.simps[of 0])
next
  case (Suc w)
  then have "n div 2 < 2 ^ w" by auto
  from Suc.IH[OF this] show ?case by (simp add: bit_length.simps[of n])
qed



lemma format_08b_digits:
  "n < 2 ^ w \<Longrightarrow> 0 < w \<Longrightarrow> w - length (bin_str n) = 8 - length (bin_str n) \<Longrightarrow>
   map (\<lambda>b. real_of_int (int_of_digit b)) (format_08b n) = map real (msb_bits w n)"
proof -
  assume a: "n < 2 ^ w" "0 < w" "w - length (bin_str n) = 8 - length (bin_str n)"
  have "format_08b n = map bit_char (msb_bits w n)"
    using bin_str_pad[OF a(1,2)] a(3) by (simp add: format_08b_def)
  moreover have "\<forall>d \<in> set (msb_bits w n). d < 2" by (auto simp: msb_bits_def)
  ultimately show ?thesis by (simp add: int_of_digit_bit_char)
qed



text \<open>
  Claim C9. For a single character with code point below 128, the Binary encoding is
  exactly the 8 binary digits of the code point, zero-padded, most significant first;
  it has 8 elements and each is 0 or 1.
\<close>

theorem binary_encode_ascii:
  "c < 128 \<Longrightarrow>
   binary_encode [c] = map real (msb_bits 8 c) \<and>
   length (binary_encode [c]) = 8 \<and>
   (\<forall>x \<in> set (binary_encode [c]). x = 0 \<or> x = 1)"
proof -
  assume c: "c < 128"
  then have "c < 2 ^ 8" by simp
  then have "map (\<lambda>b. real_of_int (int_of_digit b)) (format_08b c) = map real (msb_bits 8 c)"
    by (rule format_08b_digits) simp_all
  then have eq: "binary_encode [c] = map real (msb_bits 8 c)"
    by (simp add: binary_encode_concat)
  have "\<forall>d \<in> set (msb_bits 8 c). d = 0 \<or> d = 1" by (auto simp: msb_bits_def)
  with eq show ?thesis by (auto simp: msb_bits_def)
qed

theorem binary_encode_ascii_witness:
  "(97::nat) < 128 \<and> binary_encode [97] = [0, 1, 1, 0, 0, 0, 0, 1]"
  using binary_encode_ascii[of 97] by (simp add: msb_bits_def upt_rec)




section \<open>Properties of the OneHot encoding\<close>

lemma concat_block:
  "\<forall>row \<in> set rows. length row = k \<Longrightarrow> i < length rows \<Longrightarrow>
   take k (drop (i * k) (concat rows)) = rows ! i"
proof (induction rows arbitrary: i)
  case Nil
  then show ?case by simp
next
  case (Cons row rows)
  show ?case
  proof (cases i)
    case 0
    with Cons.prems show ?thesis by simp
  next
    case (Suc i')
    with Cons.prems have "i' < length rows" by simp
    from Cons.IH[OF _ this] Cons.prems(1) have "take k (drop (i' * k) (concat rows)) = rows ! i'"
      by simp
    with Cons.prems(1) Suc show ?thesis by simp
  qed
qed

lemma concat_length_const:
  "\<forall>row \<in> set rows. length row = k \<Longrightarrow> length (concat rows) = length rows * k"
  by (induction rows) simp_all

lemma char_to_idx_rank:
  assumes "c \<in> set s"
  shows "\<exists>j < card (set s). map_of (zip (sort (remdups s)) [0 ..< length (sort (remdups s))]) c = Some j
           \<and> sorted_list_of_set (set s) ! j = c"
proof -
  let ?U = "sort (remdups s)"
  have d: "distinct ?U" and su: "set ?U = set s" by simp_all
  have len: "length ?U = card (set s)" by (simp add: length_remdups_card_conv)
  from assms su obtain j where j: "j < length ?U" "?U ! j = c"
    by (metis in_set_conv_nth)
  have "map_of (zip ?U [0 ..< length ?U]) (?U ! j) = Some ([0 ..< length ?U] ! j)"
    using d j(1) by (intro map_of_zip_nth) simp_all
  with j have "map_of (zip ?U [0 ..< length ?U]) c = Some j" by simp
  moreover have "sorted_list_of_set (set s) = ?U" by (simp add: sorted_list_of_set_sort_remdups)
  ultimately show ?thesis using j len by auto
qed

lemma one_hot_fold:
  fixes s :: pystr
  defines "idx \<equiv> map_of (zip (sort (remdups s)) [0 ..< length (sort (remdups s))])"
  assumes "set cs \<subseteq> set s" "n + length cs \<le> length enc" "\<forall>row \<in> set enc. length row = card (set s)"
  shows "\<exists>enc'. foldM (\<lambda>(i, char) enc.
                case lookup idx char of
                  Inl e \<Rightarrow> Inl e
                | Inr j \<Rightarrow> set_cell enc i j) (enumerate n cs) enc = Inr enc'
           \<and> length enc' = length enc
           \<and> (\<forall>i < length enc. enc' ! i =
                 (if n \<le> i \<and> i < n + length cs then (enc ! i)[rank_of s (cs ! (i - n)) := 1] else enc ! i))"
  using assms(2-)
proof (induction cs arbitrary: n enc)
  case Nil
  then show ?case by auto
next
  case (Cons c cs)
  from Cons.prems(1) have "c \<in> set s" by simp
  from char_to_idx_rank[OF this] obtain j where j: "j < card (set s)" "idx c = Some j"
    unfolding idx_def by blast
  then have rk: "rank_of s c = j" by (simp add: rank_of_def idx_def)
  from Cons.prems have n: "n < length enc" by simp
  with Cons.prems(3) have "length (enc ! n) = card (set s)" by simp
  with j n have sc: "set_cell enc n j = Inr (enc[n := (enc ! n)[j := 1]])"
    by (simp add: set_cell_def)
  let ?enc1 = "enc[n := (enc ! n)[j := 1]]"
  have p1: "set cs \<subseteq> set s" using Cons.prems(1) by simp
  have p2: "Suc n + length cs \<le> length ?enc1" using Cons.prems(2) by simp
  have p3: "\<forall>row \<in> set ?enc1. length row = card (set s)"
    using Cons.prems(3) n by (auto simp: set_conv_nth nth_list_update)
  from Cons.IH[OF p1 p2 p3] obtain enc' where
    e: "foldM (\<lambda>(i, char) enc.
                case lookup idx char of
                  Inl e \<Rightarrow> Inl e
                | Inr j \<Rightarrow> set_cell enc i j) (enumerate (Suc n) cs) ?enc1 = Inr enc'"
       "length enc' = length ?enc1"
       "\<forall>i < length ?enc1. enc' ! i =
           (if Suc n \<le> i \<and> i < Suc n + length cs then (?enc1 ! i)[rank_of s (cs ! (i - Suc n)) := 1] else ?enc1 ! i)"
    by blast
  have "foldM (\<lambda>(i, char) enc.
                case lookup idx char of
                  Inl e \<Rightarrow> Inl e
                | Inr j \<Rightarrow> set_cell enc i j) (enumerate n (c # cs)) enc = Inr enc'"
    using e(1) sc j(2) by (simp add: lookup_def)
  moreover have "length enc' = length enc" using e(2) by simp
  moreover have "\<forall>i < length enc. enc' ! i =
                 (if n \<le> i \<and> i < n + length (c # cs) then (enc ! i)[rank_of s ((c # cs) ! (i - n)) := 1] else enc ! i)"
  proof (intro allI impI)
    fix i assume i: "i < length enc"
    show "enc' ! i = (if n \<le> i \<and> i < n + length (c # cs) then (enc ! i)[rank_of s ((c # cs) ! (i - n)) := 1] else enc ! i)"
    proof (cases "i = n")
      case True
      with e(3) i rk show ?thesis by simp
    next
      case False
      then have "(c # cs) ! (i - n) = cs ! (i - Suc n)" if "n \<le> i" using that
        by (simp add: nth_Cons')
      with e(3) i False show ?thesis by (auto simp: nth_list_update)
    qed
  qed
  ultimately show ?case by blast
qed

lemma count_one_hot_row:
  "j < k \<Longrightarrow> count_list ((replicate k (0::real))[j := 1]) 1 = 1"
proof (induction k arbitrary: j)
  case 0
  then show ?case by simp
next
  case (Suc k)
  then show ?case by (cases j) simp_all
qed

text \<open>
  Claim C8. For a non-empty text of length \<open>L\<close> with \<open>k\<close> distinct characters the
  OneHot encoding has length \<open>L * k\<close>, all its elements are 0 or 1, and the \<open>i\<close>-th block
  of length \<open>k\<close> is all zero except for a single 1 at the rank of the \<open>i\<close>-th character
  in the sorted list of the distinct characters.
\<close>

theorem one_hot_encode_blocks:
  "s \<noteq> [] \<Longrightarrow>
   \<exists>enc. one_hot_encode s = Inr enc \<and>
     length enc = length s * card (set s) \<and>
     (\<forall>x \<in> set enc. x = 0 \<or> x = 1) \<and>
     (\<forall>i < length s. \<exists>j < card (set s).
        sorted_list_of_set (set s) ! j = s ! i \<and>
        take (card (set s)) (drop (i * card (set s)) enc) = (replicate (card (set s)) 0)[j := 1] \<and>
        count_list (take (card (set s)) (drop (i * card (set s)) enc)) 1 = 1)"
proof -
  let ?k = "card (set s)"
  let ?U = "sort (remdups s)"
  let ?enc0 = "replicate (length s) (replicate ?k (0::real))"
  have len: "length ?U = ?k" by (simp add: length_remdups_card_conv)
  have "\<exists>enc'. foldM (\<lambda>(i, char) enc.
                case lookup (map_of (zip ?U [0 ..< length ?U])) char of
                  Inl e \<Rightarrow> Inl e
                | Inr j \<Rightarrow> set_cell enc i j) (enumerate 0 s) ?enc0 = Inr enc'
           \<and> length enc' = length ?enc0
           \<and> (\<forall>i < length ?enc0. enc' ! i =
                 (if 0 \<le> i \<and> i < 0 + length s then (?enc0 ! i)[rank_of s (s ! (i - 0)) := 1] else ?enc0 ! i))"
    by (rule one_hot_fold) simp_all
  then obtain rows where
    f: "foldM (\<lambda>(i, char) enc.
                case lookup (map_of (zip ?U [0 ..< length ?U])) char of
                  Inl e \<Rightarrow> Inl e
                | Inr j \<Rightarrow> set_cell enc i j) (enumerate 0 s) ?enc0 = Inr rows"
    and l: "length rows = length s"
    and r: "\<forall>i < length s. rows ! i = (replicate ?k 0)[rank_of s (s ! i) := 1]"
    by auto
  have enc: "one_hot_encode s = Inr (concat rows)"
    using f by (simp add: one_hot_encode_def Let_def length_remdups_card_conv)
  have rowlen: "\<forall>row \<in> set rows. length row = ?k"
    using l r by (auto simp: set_conv_nth)
  have "length (concat rows) = length s * ?k"
    using concat_length_const[OF rowlen] l by simp
  moreover have "\<forall>x \<in> set (concat rows). x = 0 \<or> x = 1"
  proof
    fix x assume "x \<in> set (concat rows)"
    then obtain row where "row \<in> set rows" "x \<in> set row" by auto
    then obtain i where "i < length rows" "rows ! i = row"
      by (metis in_set_conv_nth)
    with l r \<open>x \<in> set row\<close>
    have "i < length s" "x \<in> set ((replicate ?k 0)[rank_of s (s ! i) := 1])"
      by auto
    then show "x = 0 \<or> x = 1"
      using set_update_subset_insert[of "replicate ?k (0::real)" "rank_of s (s ! i)" 1] by auto
  qed
  moreover have "\<exists>j < ?k. sorted_list_of_set (set s) ! j = s ! i \<and>
        take ?k (drop (i * ?k) (concat rows)) = (replicate ?k 0)[j := 1] \<and>
        count_list (take ?k (drop (i * ?k) (concat rows))) 1 = 1" if i: "i < length s" for i
  proof -
    from i have "s ! i \<in> set s" by simp
    from char_to_idx_rank[OF this] obtain j where
      j: "j < ?k" "map_of (zip ?U [0 ..< length ?U]) (s ! i) = Some j"
         "sorted_list_of_set (set s) ! j = s ! i" by blast
    then have "rank_of s (s ! i) = j" by (simp add: rank_of_def)
    with r i have "rows ! i = (replicate ?k 0)[j := 1]" by simp
    moreover have "take ?k (drop (i * ?k) (concat rows)) = rows ! i"
      using rowlen i l by (intro concat_block) simp_all
    ultimately show ?thesis using j count_one_hot_row[OF j(1)] by auto
  qed
  ultimately show ?thesis using enc by blast
qed

theorem one_hot_encode_blocks_witness:
  "[98, 97, 98] \<noteq> ([] :: pystr) \<and> one_hot_encode [98, 97, 98] = Inr [0, 1, 1, 0, 0, 1] \<and>
   length [0, 1, 1, 0, 0, 1 :: real] = length [98, 97, 98 :: nat] * card (set [98, 97, 98 :: nat])"
proof -
  have ne: "[98, 97, 98] \<noteq> ([] :: pystr)" by simp
  from one_hot_encode_blocks[OF ne] obtain enc where
    "one_hot_encode [98, 97, 98] = Inr enc"
    "length enc = length [98, 97, 98 :: nat] * card (set [98, 97, 98 :: nat])" by blast
  moreover have "one_hot_encode [98, 97, 98] = Inr [0, 1, 1, 0, 0, 1]" by code_simp
  ultimately show ?thesis by simp
qed

section \<open>Properties of the Shannon entropy\<close>

lemma fl_sum_fold_Fin:
  "fold (\<lambda>x acc. fl_add acc x) (map Fin xs) (Fin a) = Fin (a + sum_list xs)"
  by (induction xs arbitrary: a) (simp_all add: add.assoc)

lemma fl_sum_Fin: "fl_sum (map Fin xs) = Fin (sum_list xs)"
  by (simp add: fl_sum_def fl_sum_fold_Fin)

lemma length_as_counts:
  "length xs = (\<Sum>v \<in> set xs. count_list xs v)"
  by (simp add: sum_count_set)

lemma unique_counts_uniform:
  assumes "\<forall>x \<in> set data. count_list data x = c"
  shows "unique_counts data = replicate (card (set data)) c"
    and "length data = card (set data) * c"
proof -
  have "map (count_list data) (sort (remdups data)) = map (\<lambda>_. c) (sort (remdups data))"
    using assms by (intro map_cong) simp_all
  then show "unique_counts data = replicate (card (set data)) c"
    by (simp add: unique_counts_def map_replicate_const length_remdups_card_conv)
  have "length data = (\<Sum>v \<in> set data. count_list data v)" by (rule length_as_counts)
  also have "\<dots> = (\<Sum>v \<in> set data. c)" using assms by (intro sum.cong) simp_all
  finally show "length data = card (set data) * c" by simp
qed

lemma count_list_distinct:
  "distinct xs \<Longrightarrow> x \<in> set xs \<Longrightarrow> count_list xs x = 1"
  by (induction xs) auto

lemma shannon_entropy_uniform_aux:
  assumes ne: "data \<noteq> []" and b: "0 < base" "base \<noteq> 1"
    and u: "\<forall>x \<in> set data. count_list data x = c"
  shows "shannon_entropy data base = Fin (log (of_int base) (real (card (set data))))"
proof -
  let ?k = "card (set data)"
  from ne have kpos: "0 < ?k" by (simp add: card_gt_0_iff)
  from ne obtain x where "x \<in> set data" by (cases data) auto
  with u have cpos: "0 < c" by (metis count_list_0_iff neq0_conv)
  have probs: "map (\<lambda>n. real n / real (length data)) (unique_counts data) = replicate ?k (1 / real ?k)"
    using unique_counts_uniform[OF u] cpos kpos by (simp add: map_replicate_const)
  have lnk: "ln (1 / real ?k) = - ln (real ?k)" using kpos by (simp add: ln_div)
  show ?thesis
  proof (cases "base = 2")
    case True
    have l2: "log 2 (1 / real ?k) = - log 2 (real ?k)" using kpos ne by (simp add: log_divide)
    have "shannon_entropy data base =
            Fin (- sum_list (map (\<lambda>p. p * log 2 p) (replicate ?k (1 / real ?k))))"
      unfolding shannon_entropy_def Let_def probs using True by simp
    with l2 kpos ne show ?thesis
      by (simp add: sum_list_replicate True)
  next
    case False
    from b have lb: "ln (real_of_int base) \<noteq> 0" by simp
    from b have npl: "np_log (real_of_int base) = Fin (ln (real_of_int base))" by (simp add: np_log_def)
    have t: "fl_div (Fin (p * ln p)) (np_log (real_of_int base)) = Fin (p * ln p / ln (real_of_int base))"
      for p using lb by (simp add: npl)
    have "shannon_entropy data base =
            fl_neg (fl_sum (map (\<lambda>p. fl_div (Fin (p * ln p)) (np_log (real_of_int base)))
                              (replicate ?k (1 / real ?k))))"
      unfolding shannon_entropy_def Let_def probs using False by (simp only: if_False)
    also have "\<dots> = fl_neg (fl_sum (map Fin (map (\<lambda>p. p * ln p / ln (real_of_int base))
                              (replicate ?k (1 / real ?k)))))"
      by (simp only: t map_map comp_def)
    also have "\<dots> = Fin (- sum_list (map (\<lambda>p. p * ln p / ln (real_of_int base))
                              (replicate ?k (1 / real ?k))))"
      by (simp only: fl_sum_Fin fl_neg.simps)
    also have "\<dots> = Fin (log (real_of_int base) (real ?k))"
      using kpos ne by (simp add: sum_list_replicate lnk log_def)
    finally show ?thesis .
  qed
qed

text \<open>
  Claim C7. For a non-empty sequence and a base that is positive and not 1, the Shannon
  entropy is 0 when the sequence is constant and \<open>log\<^bsub>base\<^esub> k\<close> when each of its \<open>k\<close>
  distinct values occurs equally often; with base 2, four pairwise distinct elements
  give entropy 2.
\<close>

theorem shannon_entropy_uniform:
  "data \<noteq> [] \<Longrightarrow> 0 < base \<Longrightarrow> base \<noteq> 1 \<Longrightarrow>
   ((\<forall>x \<in> set data. x = v) \<longrightarrow> shannon_entropy data base = Fin 0) \<and>
   ((\<forall>x \<in> set data. count_list data x = c) \<longrightarrow>
      shannon_entropy data base = Fin (log (of_int base) (real (card (set data))))) \<and>
   (length data = 4 \<and> distinct data \<longrightarrow> shannon_entropy data 2 = Fin 2)"
proof -
  assume ne: "data \<noteq> []" and b: "0 < base" "base \<noteq> 1"
  have one: "shannon_entropy data base = Fin 0" if c: "\<forall>x \<in> set data. x = v"
  proof -
    from ne c have s: "set data = {v}" by (cases data) auto
    then have "\<forall>x \<in> set data. count_list data x = count_list data v" by simp
    from shannon_entropy_uniform_aux[OF ne b this] s show ?thesis by simp
  qed
  have four: "shannon_entropy data 2 = Fin 2" if d: "length data = 4" "distinct data"
  proof -
    from d have k: "card (set data) = 4" by (simp add: distinct_card)
    from d(2) have "\<forall>x \<in> set data. count_list data x = 1"
      by (simp add: count_list_distinct)
    from shannon_entropy_uniform_aux[OF ne _ _ this, of 2] k
    have "shannon_entropy data 2 = Fin (log 2 4)" by simp
    moreover have "log 2 4 = (2::real)"
      using log_nat_power[of 2 2 2] by simp
    ultimately show ?thesis by simp
  qed
  from one four shannon_entropy_uniform_aux[OF ne b] show ?thesis by blast
qed

theorem shannon_entropy_uniform_witness:
  "shannon_entropy [7, 7, 7] 2 = Fin 0 \<and>
   shannon_entropy [1, 2, 1, 2] 3 = Fin (log 3 2) \<and>
   shannon_entropy [1, 2, 3, 4] 2 = Fin 2"
  using shannon_entropy_uniform[of "[7, 7, 7]" 2 7 3]
        shannon_entropy_uniform[of "[1, 2, 1, 2]" 3 0 2]
        shannon_entropy_uniform[of "[1, 2, 3, 4]" 2 0 0]
  by (simp add: card_insert_if)

section \<open>Properties of the orchestrator\<close>

lemma duplicates_iff: "length (remdups xs) \<noteq> length xs \<longleftrightarrow> \<not> distinct xs"
  by (metis distinct_remdups length_remdups_eq remdups_id_iff_distinct)

lemma algorithm_loop_trace:
  "algorithm_loop d em as tr rs = (tr', res) \<Longrightarrow> set tr' \<subseteq> set tr \<union> Calculate em ` set as"
proof (induction as arbitrary: tr rs)
  case Nil
  then show ?case by simp
next
  case (Cons a as)
  show ?case
  proof (cases "calculate_entropy d (encoding_value em) a")
    case (Inl e)
    with Cons.prems show ?thesis by auto
  next
    case (Inr r)
    with Cons.prems have "algorithm_loop d em as (tr @ [Calculate em a]) (rs @ [r]) = (tr', res)"
      by simp
    from Cons.IH[OF this] show ?thesis by auto
  qed
qed

lemma calculate_entropy_finite:
  assumes "calculate_entropy d enc a = Inr r"
  shows "isfinite (entropy r)"
proof (cases "get_algorithm_function a")
  case None
  with assms show ?thesis by (simp add: calculate_entropy_def)
next
  case (Some f)
  show ?thesis
  proof (cases "f d")
    case (Inl e)
    with Some assms show ?thesis by (simp add: calculate_entropy_def)
  next
    case (Inr v)
    with Some assms show ?thesis
      by (cases "isfinite v") (auto simp: calculate_entropy_def)
  qed
qed

lemma algorithm_loop_finite:
  "algorithm_loop d em as tr rs = (tr', Inr rs') \<Longrightarrow> \<forall>r \<in> set rs. isfinite (entropy r) \<Longrightarrow>
   \<forall>r \<in> set rs'. isfinite (entropy r)"
proof (induction as arbitrary: tr rs)
  case Nil
  then show ?case by simp
next
  case (Cons a as)
  show ?case
  proof (cases "calculate_entropy d (encoding_value em) a")
    case (Inl e)
    with Cons.prems show ?thesis by simp
  next
    case (Inr r)
    then have "isfinite (entropy r)" by (rule calculate_entropy_finite)
    with Cons.prems(2) have fin: "\<forall>x \<in> set (rs @ [r]). isfinite (entropy x)" by simp
    from Inr Cons.prems(1)
    have "algorithm_loop d em as (tr @ [Calculate em a]) (rs @ [r]) = (tr', Inr rs')" by simp
    from Cons.IH[OF this fin] show ?thesis .
  qed
qed

lemma encoding_loop_finite:
  "encoding_loop s es as tr rs = (tr', Inr rs') \<Longrightarrow> \<forall>r \<in> set rs. isfinite (entropy r) \<Longrightarrow>
   \<forall>r \<in> set rs'. isfinite (entropy r)"
proof (induction es arbitrary: tr rs)
  case Nil
  then show ?case by simp
next
  case (Cons em es)
  from Cons.prems(1) obtain d where d: "encode s em = Inr d" "length d \<noteq> 0"
    by (auto split: sum.splits if_splits)
  obtain tr1 r1 where l: "algorithm_loop d em as (tr @ [Encode em]) rs = (tr1, r1)"
    by (cases "algorithm_loop d em as (tr @ [Encode em]) rs") auto
  with d Cons.prems(1) obtain rs1 where r1: "r1 = Inr rs1" "encoding_loop s es as tr1 rs1 = (tr', Inr rs')"
    by (cases r1) auto
  from algorithm_loop_finite[OF l[unfolded r1(1)] Cons.prems(2)]
  have "\<forall>r \<in> set rs1. isfinite (entropy r)" .
  from Cons.IH[OF r1(2) this] show ?case .
qed

lemma encoding_loop_error:
  "encoding_loop s es as tr rs = (tr', Inl e) \<Longrightarrow> \<exists>em e'. e = ProcessingError em e'"
proof (induction es arbitrary: tr rs)
  case Nil
  then show ?case by simp
next
  case (Cons em es)
  show ?case
  proof (cases "encode s em")
    case (Inl e0)
    with Cons.prems show ?thesis by auto
  next
    case (Inr d)
    show ?thesis
    proof (cases "length d = 0")
      case True
      with Inr Cons.prems show ?thesis by auto
    next
      case False
      obtain tr1 r1 where l: "algorithm_loop d em as (tr @ [Encode em]) rs = (tr1, r1)"
        by (cases "algorithm_loop d em as (tr @ [Encode em]) rs") auto
      show ?thesis
      proof (cases r1)
        case (Inl e1)
        with l Inr False Cons.prems show ?thesis by auto
      next
        case (Inr rs1)
        with l \<open>encode s em = Inr d\<close> False Cons.prems
        have "encoding_loop s es as tr1 rs1 = (tr', Inl e)" by simp
        from Cons.IH[OF this] show ?thesis .
      qed
    qed
  qed
qed

lemma algorithm_loop_nonfinite:
  assumes "algorithm_loop d em as tr rs = (tr', res)"
    and "Calculate em a \<in> set tr'" "Calculate em a \<notin> set tr"
    and "get_algorithm_function a = Some f" "f d = Inr v" "\<not> isfinite v"
  shows "res = Inl (CalcError a NotFinite)"
  using assms(1-3)
proof (induction as arbitrary: tr rs)
  case Nil
  then show ?case by simp
next
  case (Cons a' as)
  have fail: "calculate_entropy d (encoding_value em) a = Inl (CalcError a NotFinite)"
    using assms(4-6) by (simp add: calculate_entropy_def)
  show ?case
  proof (cases "calculate_entropy d (encoding_value em) a'")
    case (Inl e)
    with Cons.prems have "tr' = tr @ [Calculate em a']" "res = Inl e" by auto
    with Cons.prems(2,3) have "a' = a" by auto
    with Inl fail \<open>res = Inl e\<close> show ?thesis by simp
  next
    case (Inr r)
    with fail have ne: "a' \<noteq> a" by auto
    from Inr Cons.prems(1)
    have "algorithm_loop d em as (tr @ [Calculate em a']) (rs @ [r]) = (tr', res)" by simp
    moreover have "Calculate em a \<notin> set (tr @ [Calculate em a'])"
      using Cons.prems(3) ne by simp
    ultimately show ?thesis using Cons.IH Cons.prems(2) by blast
  qed
qed

lemma encoding_loop_nonfinite:
  assumes "encoding_loop s es as tr rs = (tr', res)"
    and "Calculate em a \<in> set tr'" "Calculate em a \<notin> set tr"
    and "encode s em = Inr d"
    and "get_algorithm_function a = Some f" "f d = Inr v" "\<not> isfinite v"
  shows "res = Inl (ProcessingError em (CalcError a NotFinite))"
  using assms(1-3)
proof (induction es arbitrary: tr rs)
  case Nil
  then show ?case by simp
next
  case (Cons em' es)
  show ?case
  proof (cases "encode s em'")
    case (Inl e0)
    with Cons.prems show ?thesis by auto
  next
    case (Inr d')
    show ?thesis
    proof (cases "length d' = 0")
      case True
      with Inr Cons.prems show ?thesis by auto
    next
      case False
      obtain tr1 r1 where l: "algorithm_loop d' em' as (tr @ [Encode em']) rs = (tr1, r1)"
        by (cases "algorithm_loop d' em' as (tr @ [Encode em']) rs") auto
      have start: "Calculate em a \<notin> set (tr @ [Encode em'])" using Cons.prems(3) by simp
      show ?thesis
      proof (cases "Calculate em a \<in> set tr1")
        case True
        from algorithm_loop_trace[OF l] True start have "em' = em" by auto
        with Inr assms(4) have "d' = d" by simp
        from algorithm_loop_nonfinite[OF l[unfolded \<open>em' = em\<close> \<open>d' = d\<close>] True start[unfolded \<open>em' = em\<close>] assms(5-7)]
        have "r1 = Inl (CalcError a NotFinite)" .
        with l Inr False Cons.prems(1) \<open>em' = em\<close> show ?thesis by simp
      next
        case notin: False
        show ?thesis
        proof (cases r1)
          case (Inl e1)
          with l Inr False Cons.prems(1) have "tr' = tr1" by simp
          with notin Cons.prems(2) show ?thesis by simp
        next
          case (Inr rs1)
          with l \<open>encode s em' = Inr d'\<close> False Cons.prems(1)
          have "encoding_loop s es as tr1 rs1 = (tr', res)" by simp
          from Cons.IH[OF this Cons.prems(2) notin] show ?thesis .
        qed
      qed
    qed
  qed
qed

lemma upt_2: "[0 ..< 2] = [0, 1]"
  by (simp add: upt_rec)

lemma upt_3: "[0 ..< 3] = [0, 1, 2]"
  by (simp add: upt_rec)

lemma frequency_aaaa: "frequency_encode [97, 97, 97, 97] = Inr [1, 1, 1, 1]"
  by (simp add: frequency_encode_def char_freq_def lookup_def)

lemma tolerance_ones: "tolerance [1, 1, 1, 1] = 0"
  by (simp add: tolerance_def np_std_def np_mean_def)

lemma sample_entropy_ones: "sample_entropy [1, 1, 1, 1] 2 0 = Inr PInf"
  by (simp add: sample_entropy_def create_vectors_def window_def count_matches_def
        distances_def abs_diff_def upt_2 upt_3)

lemma approximate_entropy_ones: "approximate_entropy [1, 1, 1, 1] 2 0 = Inr NaN"
  by (simp add: approximate_entropy_def phi_def phi_count_def window_def abs_diff_def
        np_log_def fl_sum_def fl_sub_def upt_2 upt_3)

lemma get_stats_results:
  assumes "get_stats dflt data encodings algorithms j = (tr, Inr resp)"
  shows "\<exists>rs. (resp = Results rs \<or> resp = Json (json_document rs)) \<and>
              (\<forall>r \<in> set rs. isfinite (entropy r))"
proof -
  from assms obtain s es as where v: "validate dflt data encodings algorithms = Inr (s, es, as)"
    by (cases "validate dflt data encodings algorithms") (auto simp: get_stats_def)
  obtain tr1 r1 where l: "encoding_loop s es as [] [] = (tr1, r1)"
    by (cases "encoding_loop s es as [] []") auto
  with v assms obtain rs where rs: "r1 = Inr rs"
    by (cases r1) (auto simp: get_stats_def)
  from encoding_loop_finite[OF l[unfolded rs]] have "\<forall>r \<in> set rs. isfinite (entropy r)" by simp
  moreover from v l rs assms have "resp = Results rs \<or> resp = Json (json_document rs)"
    by (auto simp: get_stats_def split: if_splits)
  ultimately show ?thesis by blast
qed

lemma get_stats_nonfinite:
  assumes "get_stats dflt (PyStr s) encodings algorithms j = (tr, res)"
    and "Calculate em a \<in> set tr" "encode s em = Inr d"
    and "get_algorithm_function a = Some f" "f d = Inr v" "\<not> isfinite v"
  shows "res = Inl (ProcessingError em (CalcError a NotFinite))"
proof (cases "validate dflt (PyStr s) encodings algorithms")
  case (Inl e)
  with assms(1,2) show ?thesis by (simp add: get_stats_def)
next
  case (Inr x)
  then obtain s' es as where v: "validate dflt (PyStr s) encodings algorithms = Inr (s', es, as)"
    by (cases x) auto
  then have "s' = s"
    by (auto simp: validate_def Let_def split: if_splits option.splits sum.splits)
  obtain tr1 r1 where l: "encoding_loop s es as [] [] = (tr1, r1)"
    by (cases "encoding_loop s es as [] []") auto
  from v l assms(1) \<open>s' = s\<close> have "tr = tr1"
    by (cases r1) (auto simp: get_stats_def split: if_splits)
  with assms(2) have "Calculate em a \<in> set tr1" by simp
  from encoding_loop_nonfinite[OF l this _ assms(3-6)]
  have "r1 = Inl (ProcessingError em (CalcError a NotFinite))" by simp
  with v l assms(1) \<open>s' = s\<close> show ?thesis by (simp add: get_stats_def)
qed

text \<open>
  Claim C4. Whenever the orchestrator computes an (encoding, algorithm) pair whose
  entropy value is NaN or infinite, the whole call fails with the error that names this
  encoding and this algorithm and says that the value is not finite; every result record
  of a call that returns has a finite entropy.
\<close>

theorem get_stats_rejects_nonfinite:
  "get_stats dflt data encodings algorithms j = (tr, res) \<Longrightarrow>
   (\<forall>resp. res = Inr resp \<longrightarrow>
      (\<exists>rs. (resp = Results rs \<or> resp = Json (json_document rs)) \<and>
            (\<forall>r \<in> set rs. isfinite (entropy r)))) \<and>
   (\<forall>s em a d f v.
      data = PyStr s \<and> Calculate em a \<in> set tr \<and> encode s em = Inr d \<and>
      get_algorithm_function a = Some f \<and> f d = Inr v \<and> \<not> isfinite v \<longrightarrow>
      res = Inl (ProcessingError em (CalcError a NotFinite)))"
  using get_stats_results get_stats_nonfinite by blast

lemma get_stats_aaaa_sample:
  "get_stats dflt (PyStr [97, 97, 97, 97]) None (Some [SHANNON, SAMPLE]) False =
     ([Encode FREQUENCY, Calculate FREQUENCY SHANNON, Calculate FREQUENCY SAMPLE],
      Inl (ProcessingError FREQUENCY (CalcError SAMPLE NotFinite)))"
  by (simp add: get_stats_def validate_def valid_algorithms_def frequency_aaaa
        calculate_entropy_def tolerance_ones sample_entropy_ones shannon_entropy_def)

theorem get_stats_rejects_nonfinite_witness:
  "get_stats [] (PyStr [97, 97, 97, 97]) None (Some [SHANNON, SAMPLE]) False =
     ([Encode FREQUENCY, Calculate FREQUENCY SHANNON, Calculate FREQUENCY SAMPLE],
      Inl (ProcessingError FREQUENCY (CalcError SAMPLE NotFinite))) \<and>
   encode [97, 97, 97, 97] FREQUENCY = Inr [1, 1, 1, 1] \<and>
   sample_entropy [1, 1, 1, 1] 2 (tolerance [1, 1, 1, 1]) = Inr PInf \<and> \<not> isfinite PInf"
  using get_stats_rejects_nonfinite[OF get_stats_aaaa_sample[of "[]"]]
  by (simp add: get_stats_aaaa_sample frequency_aaaa tolerance_ones sample_entropy_ones)

text \<open>
  Claim C6. Validation fails before any work is done: the trace of a call that fails
  validation is empty. A text that is empty or not a string fails with the invalid-input
  error. With a valid text and valid encodings, a list of algorithms with duplicates fails
  with the duplicate-selection error, and a duplicate-free list with an element outside the
  validated set fails with the unsupported-algorithm error listing the offending elements.
  A list that contains Multiscale always fails in validation.
\<close>

theorem get_stats_validation_first:
  "((data = NotStr \<or> data = PyStr []) \<longrightarrow>
      get_stats dflt data encodings algorithms j = ([], Inl InvalidInput)) \<and>
   (data = PyStr s \<and> s \<noteq> [] \<and> (\<forall>es. encodings = Some es \<longrightarrow> distinct es) \<and>
    algorithms = Some as \<longrightarrow>
      (\<not> distinct as \<longrightarrow>
         get_stats dflt data encodings algorithms j = ([], Inl DuplicateAlgorithms)) \<and>
      (distinct as \<and> \<not> set as \<subseteq> valid_algorithms \<longrightarrow>
         get_stats dflt data encodings algorithms j =
           ([], Inl (UnsupportedAlgorithms (filter (\<lambda>a. a \<notin> valid_algorithms) as))))) \<and>
   (algorithms = Some as \<and> MULTISCALE \<in> set as \<longrightarrow>
      (\<exists>e. get_stats dflt data encodings algorithms j = ([], Inl e))) \<and>
   (get_stats dflt data encodings algorithms j = (tr, Inl e) \<and>
    (e = InvalidInput \<or> e = DuplicateEncodings \<or> e = DuplicateAlgorithms \<or>
     (\<exists>bad. e = UnsupportedAlgorithms bad)) \<longrightarrow> tr = [])"
proof -
  let ?g = "get_stats dflt data encodings algorithms j"
  have a: "?g = ([], Inl InvalidInput)" if "data = NotStr \<or> data = PyStr []"
    using that by (auto simp: get_stats_def validate_def)
  have enc_ok: "(case encodings of None \<Rightarrow> Inr [FREQUENCY]
                 | Some es \<Rightarrow> if length (remdups es) \<noteq> length es then Inl DuplicateEncodings
                              else Inr es) =
                Inr (case encodings of None \<Rightarrow> [FREQUENCY] | Some es \<Rightarrow> es)"
    if "\<forall>es. encodings = Some es \<longrightarrow> distinct es"
    using that by (cases encodings) (simp_all add: duplicates_iff)
  have b: "?g = ([], Inl DuplicateAlgorithms)"
    if "data = PyStr s" "s \<noteq> []" "\<forall>es. encodings = Some es \<longrightarrow> distinct es"
       "algorithms = Some as" "\<not> distinct as"
    using that enc_ok by (simp add: get_stats_def validate_def duplicates_iff)
  have c: "?g = ([], Inl (UnsupportedAlgorithms (filter (\<lambda>a. a \<notin> valid_algorithms) as)))"
    if "data = PyStr s" "s \<noteq> []" "\<forall>es. encodings = Some es \<longrightarrow> distinct es"
       "algorithms = Some as" "distinct as" "\<not> set as \<subseteq> valid_algorithms"
  proof -
    from that(6) have "filter (\<lambda>a. a \<notin> valid_algorithms) as \<noteq> []"
      by (auto simp: filter_empty_conv)
    with that enc_ok show ?thesis
      by (simp add: get_stats_def validate_def duplicates_iff Let_def)
  qed
  have d: "\<exists>e. validate dflt data encodings algorithms = Inl e"
    if "algorithms = Some as" "MULTISCALE \<in> set as"
  proof -
    from that(2) have "filter (\<lambda>a. a \<notin> valid_algorithms) as \<noteq> []"
      by (auto simp: filter_empty_conv valid_algorithms_def)
    with that(1) show ?thesis
      by (auto simp: validate_def Let_def split: py_input.splits option.splits sum.splits)
  qed
  then have d': "\<exists>e. ?g = ([], Inl e)" if "algorithms = Some as" "MULTISCALE \<in> set as"
    using that by (auto simp: get_stats_def)
  have e: "tr = []"
    if g: "?g = (tr, Inl e)"
      and k: "e = InvalidInput \<or> e = DuplicateEncodings \<or> e = DuplicateAlgorithms \<or>
              (\<exists>bad. e = UnsupportedAlgorithms bad)"
  proof (cases "validate dflt data encodings algorithms")
    case (Inl e0)
    with g show ?thesis by (simp add: get_stats_def)
  next
    case (Inr x)
    obtain s' es as' where x: "x = (s', es, as')" by (cases x) auto
    obtain tr1 r1 where l: "encoding_loop s' es as' [] [] = (tr1, r1)"
      by (cases "encoding_loop s' es as' [] []") auto
    show ?thesis
    proof (cases r1)
      case (Inl e1)
      from encoding_loop_error[OF l[unfolded Inl]] obtain em e' where "e1 = ProcessingError em e'"
        by blast
      with Inr x l Inl g k show ?thesis by (auto simp: get_stats_def)
    next
      case r: (Inr rs)
      with Inr x l g k show ?thesis by (auto simp: get_stats_def split: if_splits)
    qed
  qed
  from a b c d' e show ?thesis by blast
qed

theorem get_stats_validation_first_witness:
  "get_stats [] NotStr None None False = ([], Inl InvalidInput) \<and>
   get_stats [] (PyStr []) None None False = ([], Inl InvalidInput) \<and>
   get_stats [] (PyStr [97]) None (Some [SHANNON, SHANNON]) False = ([], Inl DuplicateAlgorithms) \<and>
   get_stats [] (PyStr [97]) None (Some [SHANNON, MULTISCALE]) False =
     ([], Inl (UnsupportedAlgorithms [MULTISCALE]))"
  using get_stats_validation_first[of NotStr "[]" None None False "[97]" "[SHANNON, SHANNON]" "[]" InvalidInput]
        get_stats_validation_first[of "PyStr []" "[]" None None False "[97]" "[SHANNON, SHANNON]" "[]" InvalidInput]
        get_stats_validation_first[of "PyStr [97]" "[]" None "Some [SHANNON, SHANNON]" False "[97]" "[SHANNON, SHANNON]" "[]" DuplicateAlgorithms]
        get_stats_validation_first[of "PyStr [97]" "[]" None "Some [SHANNON, MULTISCALE]" False "[97]" "[SHANNON, MULTISCALE]" "[]" "UnsupportedAlgorithms [MULTISCALE]"]
  by (simp add: valid_algorithms_def)

lemma shannon_entropy_ones: "shannon_entropy [1, 1, 1, 1] 2 = Fin 0"
  by (simp add: shannon_entropy_def unique_counts_def)

lemma calculate_entropy_ones:
  "calculate_entropy [1, 1, 1, 1] enc SHANNON =
     Inr \<lparr>encoding = enc, algorithm = ''shannon_entropy'', entropy = Fin 0\<rparr>"
  "\<exists>r. calculate_entropy [1, 1, 1, 1] enc PERMUTATION = Inr r"
  "calculate_entropy [1, 1, 1, 1] enc APPROXIMATE = Inl (CalcError APPROXIMATE NotFinite)"
  "calculate_entropy [1, 1, 1, 1] enc SAMPLE = Inl (CalcError SAMPLE NotFinite)"
  by (simp_all add: calculate_entropy_def shannon_entropy_ones tolerance_ones
        approximate_entropy_ones sample_entropy_ones permutation_entropy_def Let_def)

lemma algorithm_loop_ones:
  assumes "set as \<subseteq> valid_algorithms"
    and "find (\<lambda>x. x = APPROXIMATE \<or> x = SAMPLE) as = Some a"
  shows "algorithm_loop [1, 1, 1, 1] em as tr rs =
           (tr @ map (Calculate em) (takeWhile (\<lambda>x. x \<noteq> APPROXIMATE \<and> x \<noteq> SAMPLE) as) @
              [Calculate em a],
            Inl (CalcError a NotFinite))"
  using assms
proof (induction as arbitrary: tr rs)
  case Nil
  then show ?case by simp
next
  case (Cons b as)
  from Cons.prems(1) have "b \<in> valid_algorithms" and sub: "set as \<subseteq> valid_algorithms"
    by simp_all
  then consider "b = SHANNON" | "b = PERMUTATION" | "b = APPROXIMATE" | "b = SAMPLE"
    by (auto simp: valid_algorithms_def)
  then show ?case
  proof cases
    case 1
    with Cons.prems(2) have f: "find (\<lambda>x. x = APPROXIMATE \<or> x = SAMPLE) as = Some a" by simp
    from Cons.IH[OF sub f, of "tr @ [Calculate em SHANNON]"] 1 show ?thesis
      by (simp add: calculate_entropy_ones)
  next
    case 2
    with Cons.prems(2) have f: "find (\<lambda>x. x = APPROXIMATE \<or> x = SAMPLE) as = Some a" by simp
    obtain r where "calculate_entropy [1, 1, 1, 1] (encoding_value em) PERMUTATION = Inr r"
      using calculate_entropy_ones(2) by blast
    with Cons.IH[OF sub f, of "tr @ [Calculate em PERMUTATION]"] 2 show ?thesis by simp
  next
    case 3
    with Cons.prems(2) have "a = APPROXIMATE" by simp
    with 3 show ?thesis by (simp add: calculate_entropy_ones)
  next
    case 4
    with Cons.prems(2) have "a = SAMPLE" by simp
    with 4 show ?thesis by (simp add: calculate_entropy_ones)
  qed
qed

text \<open>
  Claim C1, as the code has it. For the text \<^verbatim>\<open>"aaaa"\<close> and default parameters the
  Frequency encoding is the constant sequence 1, 1, 1, 1, whose Shannon entropy is 0; its
  standard deviation and so the tolerance is 0, the Approximate entropy is NaN and the
  Sample entropy is infinite. In whatever order the four default algorithms are taken,
  the call returns no results: the algorithms before the first of Approximate and Sample
  are calculated, then this first one, and the call fails with the not-finite error for
  the Frequency encoding and this algorithm.
\<close>

theorem get_stats_aaaa_fails:
  "set dflt = valid_algorithms \<Longrightarrow>
   (\<exists>a. find (\<lambda>x. x = APPROXIMATE \<or> x = SAMPLE) dflt = Some a \<and>
      get_stats dflt (PyStr [97, 97, 97, 97]) None None False =
        (Encode FREQUENCY #
           map (Calculate FREQUENCY)
             (takeWhile (\<lambda>x. x \<noteq> APPROXIMATE \<and> x \<noteq> SAMPLE) dflt) @
           [Calculate FREQUENCY a],
         Inl (ProcessingError FREQUENCY (CalcError a NotFinite)))) \<and>
   encode [97, 97, 97, 97] FREQUENCY = Inr [1, 1, 1, 1] \<and>
   shannon_entropy [1, 1, 1, 1] 2 = Fin 0 \<and>
   approximate_entropy [1, 1, 1, 1] 2 (tolerance [1, 1, 1, 1]) = Inr NaN \<and>
   sample_entropy [1, 1, 1, 1] 2 (tolerance [1, 1, 1, 1]) = Inr PInf"
proof -
  assume d: "set dflt = valid_algorithms"
  then have sub: "set dflt \<subseteq> valid_algorithms" and "APPROXIMATE \<in> set dflt"
    by (simp_all add: valid_algorithms_def)
  then have "find (\<lambda>x. x = APPROXIMATE \<or> x = SAMPLE) dflt \<noteq> None"
    by (auto simp: find_None_iff)
  then obtain a where a: "find (\<lambda>x. x = APPROXIMATE \<or> x = SAMPLE) dflt = Some a" by blast
  have "get_stats dflt (PyStr [97, 97, 97, 97]) None None False =
          (Encode FREQUENCY #
             map (Calculate FREQUENCY)
               (takeWhile (\<lambda>x. x \<noteq> APPROXIMATE \<and> x \<noteq> SAMPLE) dflt) @
             [Calculate FREQUENCY a],
           Inl (ProcessingError FREQUENCY (CalcError a NotFinite)))"
    using algorithm_loop_ones[OF sub a, of FREQUENCY "[Encode FREQUENCY]" "[]"]
    by (simp add: get_stats_def validate_def frequency_aaaa)
  with a have "\<exists>a. find (\<lambda>x. x = APPROXIMATE \<or> x = SAMPLE) dflt = Some a \<and>
      get_stats dflt (PyStr [97, 97, 97, 97]) None None False =
        (Encode FREQUENCY #
           map (Calculate FREQUENCY)
             (takeWhile (\<lambda>x. x \<noteq> APPROXIMATE \<and> x \<noteq> SAMPLE) dflt) @
           [Calculate FREQUENCY a],
         Inl (ProcessingError FREQUENCY (CalcError a NotFinite)))" by blast
  moreover have "encode [97, 97, 97, 97] FREQUENCY = Inr [1, 1, 1, 1]"
    by (simp add: frequency_aaaa)
  moreover have "approximate_entropy [1, 1, 1, 1] 2 (tolerance [1, 1, 1, 1]) = Inr NaN"
    by (simp add: tolerance_ones approximate_entropy_ones)
  moreover have "sample_entropy [1, 1, 1, 1] 2 (tolerance [1, 1, 1, 1]) = Inr PInf"
    by (simp add: tolerance_ones sample_entropy_ones)
  ultimately show ?thesis using shannon_entropy_ones by blast
qed

theorem get_stats_aaaa_fails_witness:
  "set [PERMUTATION, SAMPLE, SHANNON, APPROXIMATE] = valid_algorithms \<and>
   get_stats [PERMUTATION, SAMPLE, SHANNON, APPROXIMATE] (PyStr [97, 97, 97, 97])
     None None False =
   ([Encode FREQUENCY, Calculate FREQUENCY PERMUTATION, Calculate FREQUENCY SAMPLE],
    Inl (ProcessingError FREQUENCY (CalcError SAMPLE NotFinite)))"
proof -
  have h: "set [PERMUTATION, SAMPLE, SHANNON, APPROXIMATE] = valid_algorithms"
    by (auto simp: valid_algorithms_def)
  from get_stats_aaaa_fails[OF h] h show ?thesis by simp
qed

theorem get_stats_aaaa_counterexample:
  "get_stats [SHANNON, APPROXIMATE, SAMPLE, PERMUTATION] (PyStr [97, 97, 97, 97])
     None None False =
   ([Encode FREQUENCY, Calculate FREQUENCY SHANNON, Calculate FREQUENCY APPROXIMATE],
    Inl (ProcessingError FREQUENCY (CalcError APPROXIMATE NotFinite)))"
  by (simp add: get_stats_def validate_def frequency_aaaa calculate_entropy_ones)

section \<open>The tolerance supplied by the orchestrator\<close>

lemma std_akbk:
  "np_std 0 [97, 107, 98, 107] = sqrt (363 / 16)"
  "np_std 1 [97, 107, 98, 107] = 11 / 2"
proof -
  show "np_std 0 [97, 107, 98, 107] = sqrt (363 / 16)"
    by (simp add: np_std_def np_mean_def power2_eq_square)
  have "np_std 1 [97, 107, 98, 107] = sqrt (121 / 4)"
    by (simp add: np_std_def np_mean_def power2_eq_square)
  also have "sqrt (121 / 4) = 11 / (2::real)"
    by (rule real_sqrt_unique) (simp_all add: power2_eq_square)
  finally show "np_std 1 [97, 107, 98, 107] = 11 / 2" .
qed

lemma tolerance_akbk: "0 < tolerance [97, 107, 98, 107]" "tolerance [97, 107, 98, 107] < 1"
proof -
  have "sqrt (363 / 16) < (5::real)"
    by (rule real_less_lsqrt) (simp_all add: power2_eq_square)
  then show "tolerance [97, 107, 98, 107] < 1" by (simp add: tolerance_def std_akbk)
  show "0 < tolerance [97, 107, 98, 107]" by (simp add: tolerance_def std_akbk)
qed

lemma approximate_entropy_akbk_small:
  assumes "0 < r" "r \<le> 1"
  shows "approximate_entropy [97, 107, 98, 107] 2 r = Inr (Fin \<bar>ln (1 / 3) - ln (1 / 2)\<bar>)"
  using assms
  by (simp add: approximate_entropy_def phi_def phi_count_def window_def abs_diff_def
        np_log_def fl_sum_def fl_sub_def upt_2 upt_3)

lemma approximate_entropy_akbk_large:
  assumes "1 < r" "r \<le> 9"
  shows "approximate_entropy [97, 107, 98, 107] 2 r =
           Inr (Fin \<bar>(ln (2 / 3) + ln (1 / 3) + ln (2 / 3)) / 3 - ln (1 / 2)\<bar>)"
  using assms
  by (simp add: approximate_entropy_def phi_def phi_count_def window_def abs_diff_def
        np_log_def fl_sum_def fl_sub_def upt_2 upt_3)

lemma ln_values:
  "ln (1 / 3 :: real) = - ln 3" "ln (1 / 2 :: real) = - ln 2" "ln (2 / 3 :: real) = ln 2 - ln 3"
  "ln (3 / 2 :: real) = ln 3 - ln 2" "ln (32 / 27 :: real) = 5 * ln 2 - 3 * ln 3"
proof -
  have "ln (32::real) = ln (2 ^ 5)" by simp
  also have "\<dots> = 5 * ln 2" by (subst ln_realpow) simp_all
  finally have l32: "ln (32::real) = 5 * ln 2" .
  have "ln (27::real) = ln (3 ^ 3)" by simp
  also have "\<dots> = 3 * ln 3" by (subst ln_realpow) simp_all
  finally have l27: "ln (27::real) = 3 * ln 3" .
  show "ln (1 / 3 :: real) = - ln 3" "ln (1 / 2 :: real) = - ln 2"
       "ln (2 / 3 :: real) = ln 2 - ln 3" "ln (3 / 2 :: real) = ln 3 - ln 2"
    by (simp_all add: ln_div)
  show "ln (32 / 27 :: real) = 5 * ln 2 - 3 * ln 3"
    by (simp add: ln_div l32 l27)
qed

lemma ln_bounds: "ln (2::real) < ln 3" "3 * ln (3::real) < 5 * ln 2" "8 * ln (2::real) < 6 * ln 3"
proof -
  show "ln (2::real) < ln 3" by simp
  have "ln (3 ^ 3 :: real) < ln (2 ^ 5)" by simp
  then show "3 * ln (3::real) < 5 * ln 2" by (simp only: ln_realpow; simp)
  have "ln (2 ^ 8 :: real) < ln (3 ^ 6)" by simp
  then show "8 * ln (2::real) < 6 * ln 3" by (simp only: ln_realpow; simp)
qed

lemma upt_small:
  "[0 ..< 4] = [0, 1, 2, 3]" "[0 ..< 5] = [0, 1, 2, 3, 4]" "[0 ..< 6] = [0, 1, 2, 3, 4, 5]"
  "[0 ..< 7] = [0, 1, 2, 3, 4, 5, 6]" "[1 ..< 2] = [1]"
  by (simp_all add: upt_rec)

lemma sample_entropy_aaaalbl_small:
  assumes "0 < r" "r \<le> 1"
  shows "sample_entropy [97, 97, 97, 97, 108, 98, 108] 2 r = Inr (Fin (- ln (2 / 6)))"
  using assms
  by (simp add: sample_entropy_def create_vectors_def window_def count_matches_def
        distances_def abs_diff_def np_log_def upt_small)

lemma sample_entropy_aaaalbl_large:
  assumes "1 < r" "r \<le> 10"
  shows "sample_entropy [97, 97, 97, 97, 108, 98, 108] 2 r = Inr (Fin (- ln (2 / 7)))"
  using assms
  by (simp add: sample_entropy_def create_vectors_def window_def count_matches_def
        distances_def abs_diff_def np_log_def upt_small)

lemma std_aaaalbl:
  "np_std 0 [97, 97, 97, 97, 108, 98, 108] = sqrt (1172 / 49)"
  "np_std 1 [97, 97, 97, 97, 108, 98, 108] = sqrt (586 / 21)"
  by (simp_all add: np_std_def np_mean_def power2_eq_square)

lemma coarse_grain_one: "coarse_grain [97, 97, 97, 97, 108, 98, 108] 1 = [97, 97, 97, 97, 108, 98, 108]"
  by (simp add: coarse_grain_def np_mean_def upt_small)


lemma tolerance_aaaalbl:
  "0 < tolerance [97, 97, 97, 97, 108, 98, 108]" "tolerance [97, 97, 97, 97, 108, 98, 108] < 1"
  "1 < 0.2 * np_std 1 [97, 97, 97, 97, 108, 98, 108]"
  "0.2 * np_std 1 [97, 97, 97, 97, 108, 98, 108] < 10"
proof -
  have a: "sqrt (1172 / 49) < (5::real)"
    by (rule real_less_lsqrt) (simp_all add: power2_eq_square)
  have b: "(5::real) < sqrt (586 / 21)"
    by (rule real_less_rsqrt) (simp add: power2_eq_square)
  have c: "sqrt (586 / 21) < (50::real)"
    by (rule real_less_lsqrt) (simp_all add: power2_eq_square)
  show "0 < tolerance [97, 97, 97, 97, 108, 98, 108]" by (simp add: tolerance_def std_aaaalbl)
  show "tolerance [97, 97, 97, 97, 108, 98, 108] < 1" using a by (simp add: tolerance_def std_aaaalbl)
  show "1 < 0.2 * np_std 1 [97, 97, 97, 97, 108, 98, 108]"
    unfolding std_aaaalbl using b by simp
  show "0.2 * np_std 1 [97, 97, 97, 97, 108, 98, 108] < 10"
    unfolding std_aaaalbl using c by simp
qed

lemma sample_paths_aaaalbl:
  "calculate_entropy [97, 97, 97, 97, 108, 98, 108] ''ordinal'' SAMPLE =
     Inr \<lparr>encoding = ''ordinal'', algorithm = ''sample_entropy'', entropy = Fin (ln 3)\<rparr>"
  "multiscale_entropy [97, 97, 97, 97, 108, 98, 108] 1 2 0.2 = Inr [Fin (ln (7 / 2))]"
proof -
  have v: "- ln (2 / 6 :: real) = ln 3" "- ln (2 / 7 :: real) = ln (7 / 2)"
    by (simp_all add: ln_div)
  have "sample_entropy [97, 97, 97, 97, 108, 98, 108] 2 (tolerance [97, 97, 97, 97, 108, 98, 108]) =
          Inr (Fin (ln 3))"
    using sample_entropy_aaaalbl_small[OF tolerance_aaaalbl(1)] tolerance_aaaalbl(2)
    by (simp only: v; simp)
  then show "calculate_entropy [97, 97, 97, 97, 108, 98, 108] ''ordinal'' SAMPLE =
     Inr \<lparr>encoding = ''ordinal'', algorithm = ''sample_entropy'', entropy = Fin (ln 3)\<rparr>"
    by (simp add: calculate_entropy_def)
  have "sample_entropy [97, 97, 97, 97, 108, 98, 108] 2
          (0.2 * np_std 1 [97, 97, 97, 97, 108, 98, 108]) = Inr (Fin (ln (7 / 2)))"
    using sample_entropy_aaaalbl_large[OF tolerance_aaaalbl(3)] tolerance_aaaalbl(4)
    by (simp only: v; simp)
  then show "multiscale_entropy [97, 97, 97, 97, 108, 98, 108] 1 2 0.2 = Inr [Fin (ln (7 / 2))]"
    using coarse_grain_one unfolding multiscale_entropy_def Let_def by (simp add: upt_small)
qed

text \<open>
  Claim C2 on the code. The orchestrator supplies \<open>m = 2\<close> and a tolerance of 0.2 times
  the population standard deviation (divisor \<open>N\<close>), not the sample standard deviation
  (divisor \<open>N - 1\<close>) that \<^verbatim>\<open>multiscale_entropy\<close> uses. For the Ordinal encoding
  97, 107, 98, 107 the tolerance is below 1 while 0.2 times the sample deviation is 1.1;
  the distance 1 between the first and the third window lies between the two, and the
  Approximate entropy returned differs from the one for the sample deviation. For the
  Ordinal encoding of \<^verbatim>\<open>"aaaalbl"\<close> the orchestrator's Sample entropy is \<open>ln 3\<close>,
  while \<^verbatim>\<open>multiscale_entropy\<close> at scale 1, which is the Sample entropy of the same
  sequence with the sample deviation, is \<open>ln (7 / 2)\<close>.
\<close>

theorem tolerance_uses_population_std:
  "encode [97, 107, 98, 107] ORDINAL = Inr [97, 107, 98, 107] \<and>
   tolerance [97, 107, 98, 107] = 0.2 * np_std 0 [97, 107, 98, 107] \<and>
   tolerance [97, 107, 98, 107] < 1 \<and>
   0.2 * np_std 1 [97, 107, 98, 107] = 11 / 10 \<and>
   calculate_entropy [97, 107, 98, 107] ''ordinal'' APPROXIMATE =
     Inr \<lparr>encoding = ''ordinal'', algorithm = ''approximate_entropy'',
          entropy = Fin (ln (3 / 2))\<rparr> \<and>
   approximate_entropy [97, 107, 98, 107] 2 (0.2 * np_std 1 [97, 107, 98, 107]) =
     Inr (Fin (ln (32 / 27) / 3)) \<and>
   ln (32 / 27) / 3 \<noteq> ln (3 / 2 :: real) \<and>
   encode [97, 97, 97, 97, 108, 98, 108] ORDINAL = Inr [97, 97, 97, 97, 108, 98, 108] \<and>
   calculate_entropy [97, 97, 97, 97, 108, 98, 108] ''ordinal'' SAMPLE =
     Inr \<lparr>encoding = ''ordinal'', algorithm = ''sample_entropy'', entropy = Fin (ln 3)\<rparr> \<and>
   multiscale_entropy [97, 97, 97, 97, 108, 98, 108] 1 2 0.2 = Inr [Fin (ln (7 / 2))] \<and>
   ln 3 \<noteq> ln (7 / 2 :: real)"
proof -
  have v1: "\<bar>ln (1 / 3) - ln (1 / 2)\<bar> = ln (3 / 2 :: real)"
    using ln_bounds(1) by (simp add: ln_values)
  have v2: "\<bar>(ln (2 / 3) + ln (1 / 3) + ln (2 / 3)) / 3 - ln (1 / 2)\<bar> = ln (32 / 27 :: real) / 3"
  proof -
    have "(ln (2 / 3) + ln (1 / 3) + ln (2 / 3)) / 3 - ln (1 / 2) = (5 * ln 2 - 3 * ln (3::real)) / 3"
      by (simp add: ln_values field_simps)
    moreover have "0 \<le> (5 * ln 2 - 3 * ln (3::real)) / 3" using ln_bounds(2) by simp
    ultimately show ?thesis by (simp only: ln_values(5) abs_of_nonneg)
  qed
  have r: "0.2 * np_std 1 [97, 107, 98, 107] = 11 / 10"
    unfolding std_akbk(2) by simp
  have small: "approximate_entropy [97, 107, 98, 107] 2 (tolerance [97, 107, 98, 107]) =
                 Inr (Fin (ln (3 / 2)))"
    using approximate_entropy_akbk_small[of "tolerance [97, 107, 98, 107]"] tolerance_akbk
    by (simp only: v1; simp)
  have "approximate_entropy [97, 107, 98, 107] 2 (11 / 10) = Inr (Fin (ln (32 / 27) / 3))"
    using approximate_entropy_akbk_large[of "11 / 10"] by (simp only: v2; simp)
  then have large: "approximate_entropy [97, 107, 98, 107] 2 (0.2 * np_std 1 [97, 107, 98, 107]) =
                 Inr (Fin (ln (32 / 27) / 3))"
    by (simp only: r)
  have ne: "ln (32 / 27) / 3 \<noteq> ln (3 / 2 :: real)"
    using ln_bounds(3) by (simp add: ln_values)
  have calc: "calculate_entropy [97, 107, 98, 107] ''ordinal'' APPROXIMATE =
     Inr \<lparr>encoding = ''ordinal'', algorithm = ''approximate_entropy'',
          entropy = Fin (ln (3 / 2))\<rparr>"
    by (simp add: calculate_entropy_def small)
  have enc: "encode [97, 107, 98, 107] ORDINAL = Inr [97, 107, 98, 107]"
    by (simp add: ordinal_encode_def)
  have tol: "tolerance [97, 107, 98, 107] = 0.2 * np_std 0 [97, 107, 98, 107]"
    by (simp add: tolerance_def)
  have enc2: "encode [97, 97, 97, 97, 108, 98, 108] ORDINAL = Inr [97, 97, 97, 97, 108, 98, 108]"
    by (simp add: ordinal_encode_def)
  have ne2: "ln 3 \<noteq> ln (7 / 2 :: real)" by simp
  from enc tol tolerance_akbk(2) r calc large ne enc2 sample_paths_aaaalbl ne2 show ?thesis
    by (intro conjI)
qed

section \<open>Properties of the Approximate entropy\<close>

lemma foldM_append:
  "foldM f (xs @ ys) s = (case foldM f xs s of Inl e \<Rightarrow> Inl e | Inr s' \<Rightarrow> foldM f ys s')"
  by (induction xs arbitrary: s) (auto split: sum.splits)

lemma window_length: "i + m \<le> length ts \<Longrightarrow> length (window ts i m) = m"
  by (simp add: window_def)

lemma maximum_chebyshev:
  assumes "u \<noteq> []" "length u = length v"
  shows "maximum (abs_diff u v) = Inr (chebyshev u v)"
proof -
  from assms obtain a u' b v' where uv: "u = a # u'" "v = b # v'"
    by (cases u; cases v) auto
  show ?thesis
    unfolding uv abs_diff_def chebyshev_def
    by (simp add: Max.set_eq_fold del: set_simps)
qed

lemma window_distance:
  assumes "1 \<le> m" "i + m \<le> length ts" "j + m \<le> length ts"
  shows "maximum (abs_diff (window ts i m) (window ts j m)) =
           Inr (chebyshev (window ts i m) (window ts j m))"
proof -
  from assms have "length (window ts i m) = m" "length (window ts j m) = m"
    by (simp_all add: window_length)
  with assms(1) show ?thesis by (intro maximum_chebyshev) auto
qed

lemma phi_count_inner:
  assumes "1 \<le> m" "i + m \<le> length ts" "\<forall>j \<in> set js. j + m \<le> length ts" "i < length count"
  shows "foldM (\<lambda>j count.
            case maximum (abs_diff (window ts i m) (window ts j m)) of
              Inl e \<Rightarrow> Inl e
            | Inr d \<Rightarrow> Inr (if d < r then count[i := count ! i + 1] else count)) js count =
         Inr (count[i := count ! i +
                real (length (filter (\<lambda>j. chebyshev (window ts i m) (window ts j m) < r) js))])"
  using assms(3,4)
proof (induction js arbitrary: count)
  case Nil
  then show ?case by simp
next
  case (Cons j js)
  from Cons.prems have j: "j + m \<le> length ts" by simp
  note d = window_distance[OF assms(1,2) j]
  show ?case
  proof (cases "chebyshev (window ts i m) (window ts j m) < r")
    case True
    have "i < length (count[i := count ! i + 1])" using Cons.prems(2) by simp
    from Cons.IH[OF _ this] Cons.prems(1) True d Cons.prems(2) show ?thesis
      by (simp add: add.assoc)
  next
    case False
    from Cons.IH[OF _ Cons.prems(2)] Cons.prems(1) False d show ?thesis by simp
  qed
qed

lemma length_filter_upt: "length (filter P [0 ..< n]) = card {j. j < n \<and> P j}"
proof -
  have "length (filter P [0 ..< n]) = card ({x. P x} \<inter> set [0 ..< n])"
    by (intro distinct_length_filter) simp
  also have "{x. P x} \<inter> set [0 ..< n] = {j. j < n \<and> P j}" by auto
  finally show ?thesis .
qed

lemma window_nth_map:
  "i + m \<le> length ts \<Longrightarrow> window ts i m = map (\<lambda>k. ts ! (i + k)) [0 ..< m]"
  by (auto simp: window_def intro!: nth_equalityI)

lemma chebyshev_window:
  assumes "i + m \<le> length ts" "j + m \<le> length ts"
  shows "chebyshev (window ts i m) (window ts j m) = chebyshev_at ts m i j"
proof -
  have "map2 (\<lambda>a b. \<bar>a - b\<bar>) (map (\<lambda>k. ts ! (i + k)) [0 ..< m]) (map (\<lambda>k. ts ! (j + k)) [0 ..< m])
        = map (\<lambda>k. \<bar>ts ! (i + k) - ts ! (j + k)\<bar>) [0 ..< m]"
    by (simp add: zip_map_map zip_same_conv_map comp_def)
  then show ?thesis
    unfolding chebyshev_def chebyshev_at_def window_nth_map[OF assms(1)] window_nth_map[OF assms(2)]
    by (simp add: lessThan_atLeast0)
qed

lemma phi_count_outer:
  fixes ts :: "real list" and r :: real and m :: nat
  defines "n \<equiv> length ts + 1 - m"
  defines "step \<equiv> (\<lambda>i count.
           let template = window ts i m
           in foldM (\<lambda>j count.
                case maximum (abs_diff template (window ts j m)) of
                  Inl e \<Rightarrow> Inl e
                | Inr d \<Rightarrow> Inr (if d < r then count[i := count ! i + 1] else count))
              [0 ..< n] count)"
  assumes m: "1 \<le> m" and k: "k \<le> n"
  shows "foldM step [0 ..< k] (replicate n 0) =
         Inr (map (\<lambda>i. real (within_count ts m r i)) [0 ..< k] @ replicate (n - k) 0)"
  using k
proof (induction k)
  case 0
  then show ?case by simp
next
  case (Suc k)
  let ?c = "map (\<lambda>i. real (within_count ts m r i)) [0 ..< k] @ replicate (n - k) (0::real)"
  from Suc.prems have kn: "k < n" by simp
  with m have km: "k + m \<le> length ts" by (simp add: n_def)
  have all: "\<forall>j \<in> set [0 ..< n]. j + m \<le> length ts" using m by (auto simp: n_def)
  have len: "k < length ?c" using kn by simp
  have ck: "?c ! k = 0" using kn by (simp add: nth_append)
  have upd: "?c[k := x] = map (\<lambda>i. real (within_count ts m r i)) [0 ..< k] @ x # replicate (n - Suc k) 0"
    for x
  proof -
    from kn have "replicate (n - k) (0::real) = 0 # replicate (n - Suc k) 0"
      by (metis Suc_diff_Suc replicate_Suc)
    then show ?thesis by (simp add: list_update_append)
  qed
  have cnt: "?c ! k + real (length (filter (\<lambda>j. chebyshev (window ts k m) (window ts j m) < r)
                  [0 ..< n])) = real (within_count ts m r k)"
  proof -
    have "filter (\<lambda>j. chebyshev (window ts k m) (window ts j m) < r) [0 ..< n] =
          filter (\<lambda>j. chebyshev_at ts m k j < r) [0 ..< n]"
      using all km by (intro filter_cong) (auto simp: chebyshev_window)
    then have "length (filter (\<lambda>j. chebyshev (window ts k m) (window ts j m) < r) [0 ..< n]) =
          within_count ts m r k"
      by (simp only: length_filter_upt within_count_def n_def)
    then show ?thesis by (simp only: ck add_0)
  qed
  have "step k ?c = Inr (?c[k := real (within_count ts m r k)])"
    unfolding step_def Let_def phi_count_inner[OF m km all len] cnt ..
  also have "?c[k := real (within_count ts m r k)] =
      map (\<lambda>i. real (within_count ts m r i)) [0 ..< k] @
        real (within_count ts m r k) # replicate (n - Suc k) 0"
    by (rule upd)
  also have "\<dots> = map (\<lambda>i. real (within_count ts m r i)) [0 ..< Suc k] @ replicate (n - Suc k) 0"
    by simp
  finally have inner: "step k ?c =
         Inr (map (\<lambda>i. real (within_count ts m r i)) [0 ..< Suc k] @ replicate (n - Suc k) 0)" .
  have prev: "foldM step [0 ..< k] (replicate n 0) = Inr ?c"
    using Suc.IH kn by simp
  have "foldM step [0 ..< Suc k] (replicate n 0) = foldM step ([0 ..< k] @ [k]) (replicate n 0)"
    by simp
  also have "\<dots> = step k ?c"
    unfolding foldM_append prev by (cases "step k ?c") simp_all
  finally show ?case using inner by simp
qed

lemma phi_count_eq:
  assumes "1 \<le> m"
  shows "phi_count ts r m = Inr (map (\<lambda>i. real (within_count ts m r i)) [0 ..< length ts + 1 - m])"
  using phi_count_outer[OF assms order_refl, of ts r] by (simp add: phi_count_def Let_def)

lemma phi_eq:
  assumes "1 \<le> m" "m \<le> length ts + 1"
  shows "phi ts r m = Inr (phi_spec ts m r)"
  using assms by (simp add: phi_def phi_count_eq phi_spec_def Let_def comp_def)

lemma chebyshev_self: "w \<noteq> [] \<Longrightarrow> chebyshev w w = 0"
proof -
  assume "w \<noteq> []"
  then have "set (map2 (\<lambda>a b. \<bar>a - b\<bar>) w w) = {0::real}"
    by (cases w) (auto simp: zip_same_conv_map)
  then show ?thesis by (simp add: chebyshev_def)
qed

lemma within_count_pos:
  assumes "1 \<le> m" "i + m \<le> length ts" "0 < r"
  shows "0 < within_count ts m r i"
proof -
  let ?S = "{j. j < length ts + 1 - m \<and> chebyshev_at ts m i j < r}"
  from assms(1,2) have "window ts i m \<noteq> []"
    using window_length[of i m ts] by auto
  then have "chebyshev_at ts m i i = 0"
    using chebyshev_window[OF assms(2) assms(2)] by (simp add: chebyshev_self)
  with assms have "i \<in> ?S" by simp
  moreover have "finite ?S" by simp
  ultimately show ?thesis unfolding within_count_def by (metis card_gt_0_iff empty_iff)
qed

lemma phi_spec_real:
  assumes "1 \<le> m" "m \<le> length ts" "0 < r"
  shows "phi_spec ts m r = Fin (phi_real ts m r)"
proof -
  let ?n = "length ts + 1 - m"
  from assms have n: "0 < ?n" by simp
  have "map (\<lambda>i. np_log (real (within_count ts m r i) / real ?n)) [0 ..< ?n] =
        map (\<lambda>i. Fin (ln (real (within_count ts m r i) / real ?n))) [0 ..< ?n]"
  proof (rule map_cong[OF refl])
    fix i assume "i \<in> set [0 ..< ?n]"
    with assms have "i + m \<le> length ts" by simp
    from within_count_pos[OF assms(1) this assms(3)] n
    show "np_log (real (within_count ts m r i) / real ?n) =
          Fin (ln (real (within_count ts m r i) / real ?n))"
      by (simp add: np_log_def)
  qed
  also have "\<dots> = map Fin (map (\<lambda>i. ln (real (within_count ts m r i) / real ?n)) [0 ..< ?n])"
    by simp
  finally have "fl_sum (map (\<lambda>i. np_log (real (within_count ts m r i) / real ?n)) [0 ..< ?n]) =
        Fin (sum_list (map (\<lambda>i. ln (real (within_count ts m r i) / real ?n)) [0 ..< ?n]))"
    by (simp only: fl_sum_Fin)
  moreover have "sum_list (map (\<lambda>i. ln (real (within_count ts m r i) / real ?n)) [0 ..< ?n]) =
        (\<Sum>i < ?n. ln (real (within_count ts m r i) / real ?n))"
    by (simp add: interv_sum_list_conv_sum_set_nat atLeast0LessThan)
  ultimately show ?thesis
    using n unfolding phi_spec_def phi_real_def Let_def by simp
qed

lemma chebyshev_at_upt:
  "chebyshev_at ts m i j = Max (set (map (\<lambda>k. \<bar>ts ! (i + k) - ts ! (j + k)\<bar>) [0 ..< m]))"
  by (simp add: chebyshev_at_def lessThan_atLeast0)

lemma within_count_filter:
  "within_count ts m r i =
     length (filter (\<lambda>j. chebyshev_at ts m i j < r) [0 ..< length ts + 1 - m])"
  by (simp only: within_count_def length_filter_upt)

lemma sum_less_2: "(\<Sum>i < 2. f i) = f 0 + f (1::nat)" for f :: "nat \<Rightarrow> real"
  by (simp add: numeral_2_eq_2)

lemma sum_less_3: "(\<Sum>i < 3. f i) = f 0 + f 1 + f (2::nat)" for f :: "nat \<Rightarrow> real"
  by (simp add: numeral_3_eq_3 numeral_2_eq_2)

lemma within_count_akbk:
  "within_count [97, 107, 98, 107] 2 (11 / 10) 0 = 2"
  "within_count [97, 107, 98, 107] 2 (11 / 10) 1 = 1"
  "within_count [97, 107, 98, 107] 2 (11 / 10) 2 = 2"
  "within_count [97, 107, 98, 107] 3 (11 / 10) 0 = 1"
  "within_count [97, 107, 98, 107] 3 (11 / 10) 1 = 1"
  by (simp_all add: within_count_filter chebyshev_at_upt upt_2 upt_3)

lemma phi_real_akbk:
  "phi_real [97, 107, 98, 107] 2 (11 / 10) = (ln (2 / 3) + ln (1 / 3) + ln (2 / 3)) / 3"
  "phi_real [97, 107, 98, 107] 3 (11 / 10) = ln (1 / 2)"
proof -
  have n: "length [97, 107, 98, 107 :: real] + 1 - 2 = 3" "length [97, 107, 98, 107 :: real] + 1 - 3 = 2"
    by simp_all
  show "phi_real [97, 107, 98, 107] 2 (11 / 10) = (ln (2 / 3) + ln (1 / 3) + ln (2 / 3)) / 3"
    unfolding phi_real_def Let_def n sum_less_3 within_count_akbk by simp
  show "phi_real [97, 107, 98, 107] 3 (11 / 10) = ln (1 / 2)"
    unfolding phi_real_def Let_def n sum_less_2 within_count_akbk by simp
qed

text \<open>
  Claim C5, as the code has it. For an embedding dimension \<open>m \<ge> 1\<close> and a sequence of
  length \<open>N \<ge> m + 2\<close>, the windows are the \<open>N - m + 1\<close> contiguous slices of length
  \<open>m\<close>; the count array of \<open>\<phi>(m)\<close> has one entry for each window, holding the number of
  windows (itself included) at Chebyshev distance strictly less than \<open>r\<close>; \<open>\<phi>(m)\<close> is
  the mean of the logarithms of the counts divided by \<open>N - m + 1\<close>, and the result is
  \<open>|\<phi>(m) - \<phi>(m + 1)|\<close>. For \<open>r > 0\<close> every count is positive and the result is the
  real number given by the formula. (For \<open>m = 0\<close> the windows are empty and the code
  raises.)
\<close>

theorem approximate_entropy_formula:
  "1 \<le> m \<Longrightarrow> m + 2 \<le> length ts \<Longrightarrow>
   (\<forall>i < length ts + 1 - m. window ts i m = map (\<lambda>k. ts ! (i + k)) [0 ..< m]) \<and>
   phi_count ts r m = Inr (map (\<lambda>i. real (within_count ts m r i)) [0 ..< length ts + 1 - m]) \<and>
   phi ts r m = Inr (phi_spec ts m r) \<and>
   phi ts r (m + 1) = Inr (phi_spec ts (m + 1) r) \<and>
   approximate_entropy ts m r = Inr (fl_abs (fl_sub (phi_spec ts m r) (phi_spec ts (m + 1) r))) \<and>
   (0 < r \<longrightarrow>
      approximate_entropy ts m r = Inr (Fin \<bar>phi_real ts m r - phi_real ts (m + 1) r\<bar>))"
proof -
  assume m: "1 \<le> m" and N: "m + 2 \<le> length ts"
  have w: "\<forall>i < length ts + 1 - m. window ts i m = map (\<lambda>k. ts ! (i + k)) [0 ..< m]"
    using m by (auto intro!: window_nth_map)
  have p1: "phi ts r m = Inr (phi_spec ts m r)" using m N by (intro phi_eq) simp_all
  have p2: "phi ts r (m + 1) = Inr (phi_spec ts (m + 1) r)" using m N by (intro phi_eq) simp_all
  have a: "approximate_entropy ts m r = Inr (fl_abs (fl_sub (phi_spec ts m r) (phi_spec ts (m + 1) r)))"
    unfolding approximate_entropy_def p1 p2 by simp
  have "approximate_entropy ts m r = Inr (Fin \<bar>phi_real ts m r - phi_real ts (m + 1) r\<bar>)"
    if "0 < r"
  proof -
    have "phi_spec ts m r = Fin (phi_real ts m r)" using m N that by (intro phi_spec_real) simp_all
    moreover have "phi_spec ts (m + 1) r = Fin (phi_real ts (m + 1) r)"
      using m N that by (intro phi_spec_real) simp_all
    ultimately show ?thesis unfolding a by (simp add: fl_sub_def)
  qed
  with w phi_count_eq[OF m] p1 p2 a show ?thesis by blast
qed

theorem approximate_entropy_formula_witness:
  "(1::nat) \<le> 2 \<and> 2 + 2 \<le> length [97, 107, 98, 107 :: real] \<and> (0::real) < 11 / 10 \<and>
   window [97, 107, 98, 107] 1 2 = [107, 98] \<and>
   phi_count [97, 107, 98, 107] (11 / 10) 2 = Inr [2, 1, 2] \<and>
   approximate_entropy [97, 107, 98, 107] 2 (11 / 10) =
     Inr (Fin \<bar>(ln (2 / 3) + ln (1 / 3) + ln (2 / 3)) / 3 - ln (1 / 2)\<bar>)"
proof -
  have h: "(1::nat) \<le> 2" "2 + 2 \<le> length [97, 107, 98, 107 :: real]" by simp_all
  have n: "length [97, 107, 98, 107 :: real] + 1 - 2 = 3" "(2::nat) + 1 = 3" by simp_all
  note t = approximate_entropy_formula[OF h, of "11 / 10"]
  from t have "window [97, 107, 98, 107] 1 2 = map (\<lambda>k. [97, 107, 98, 107] ! (1 + k)) [0 ..< 2]"
    by simp
  then have w: "window [97, 107, 98, 107] 1 2 = [107, 98]" by (simp add: upt_2)
  from t have "phi_count [97, 107, 98, 107] (11 / 10) 2 =
      Inr (map (\<lambda>i. real (within_count [97, 107, 98, 107] 2 (11 / 10) i)) [0 ..< 3])"
    unfolding n by blast
  then have c: "phi_count [97, 107, 98, 107] (11 / 10) 2 = Inr [2, 1, 2]"
    unfolding upt_3 list.map within_count_akbk by simp
  from t have "(0::real) < 11 / 10 \<longrightarrow> approximate_entropy [97, 107, 98, 107] 2 (11 / 10) =
      Inr (Fin \<bar>phi_real [97, 107, 98, 107] 2 (11 / 10) -
                 phi_real [97, 107, 98, 107] (2 + 1) (11 / 10)\<bar>)"
    by blast
  then have "approximate_entropy [97, 107, 98, 107] 2 (11 / 10) =
      Inr (Fin \<bar>phi_real [97, 107, 98, 107] 2 (11 / 10) - phi_real [97, 107, 98, 107] 3 (11 / 10)\<bar>)"
    unfolding n by simp
  then have "approximate_entropy [97, 107, 98, 107] 2 (11 / 10) =
     Inr (Fin \<bar>(ln (2 / 3) + ln (1 / 3) + ln (2 / 3)) / 3 - ln (1 / 2)\<bar>)"
    unfolding phi_real_akbk .
  with h w c show ?thesis by simp
qed

theorem approximate_entropy_dimension_zero_counterexample:
  "approximate_entropy [1, 2, 3] 0 1 = Inl EmptyReduction"
  by (simp add: approximate_entropy_def phi_def phi_count_def window_def abs_diff_def upt_small)

section \<open>Properties of the Sample entropy\<close>

lemma mapM_pure: "\<forall>x \<in> set xs. f x = Inr (g x) \<Longrightarrow> mapM f xs = Inr (map g xs)"
  by (induction xs) simp_all

lemma foldM_pure:
  "\<forall>x \<in> set xs. \<forall>s. f x s = Inr (g x s) \<Longrightarrow> foldM f xs s = Inr (fold g xs s)"
  by (induction xs arbitrary: s) simp_all

lemma fold_add: "fold (\<lambda>i acc. acc + h i) xs (a::nat) = a + sum_list (map h xs)"
  by (induction xs arbitrary: a) simp_all

lemma length_filter_product:
  "length (filter P (List.product xs ys)) =
   sum_list (map (\<lambda>i. length (filter (\<lambda>j. P (i, j)) ys)) xs)"
  by (induction xs) (simp_all add: filter_map comp_def)

lemma create_vectors_nth:
  "i < length ts + 1 - dm \<Longrightarrow> create_vectors ts dm ! i = window ts i dm"
  by (simp add: create_vectors_def)

lemma distances_window:
  assumes "1 \<le> dm" "i + dm \<le> length ts"
  shows "distances (window ts i dm) (create_vectors ts dm) =
           Inr (map (\<lambda>j. chebyshev (window ts i dm) (window ts j dm)) [0 ..< length ts + 1 - dm])"
proof -
  have "mapM (\<lambda>v. maximum (abs_diff (window ts i dm) v)) (map (\<lambda>j. window ts j dm) [0 ..< length ts + 1 - dm])
        = Inr (map (chebyshev (window ts i dm)) (map (\<lambda>j. window ts j dm) [0 ..< length ts + 1 - dm]))"
  proof (rule mapM_pure, rule ballI)
    fix v assume "v \<in> set (map (\<lambda>j. window ts j dm) [0 ..< length ts + 1 - dm])"
    then obtain j where j: "j < length ts + 1 - dm" "v = window ts j dm" by auto
    with assms(1) have "j + dm \<le> length ts" by simp
    from window_distance[OF assms this] j(2)
    show "maximum (abs_diff (window ts i dm) v) = Inr (chebyshev (window ts i dm) v)" by simp
  qed
  then show ?thesis by (simp add: distances_def create_vectors_def comp_def)
qed

lemma count_matches_eq:
  assumes dm: "1 \<le> dm" and k: "k \<le> length ts - dm"
  shows "count_matches (create_vectors ts dm) r k = Inr (pair_count ts dm r k)"
proof -
  let ?n = "length ts + 1 - dm"
  let ?h = "\<lambda>i. length (filter (\<lambda>j. j \<noteq> i \<and> chebyshev (window ts i dm) (window ts j dm) < r) [0 ..< ?n])"
  have step: "(case distances (create_vectors ts dm ! i) (create_vectors ts dm) of
                 Inl e \<Rightarrow> Inl e
               | Inr ds \<Rightarrow> Inr (acc + length (filter (\<lambda>j. ds ! j < r \<and> j \<noteq> i) [0 ..< length ds])))
              = Inr (acc + ?h i)" if "i \<in> set [0 ..< k]" for i acc
  proof -
    from that k have i: "i < length ts - dm" by simp
    then have il: "i + dm \<le> length ts" and "i < ?n" by simp_all
    then have nth: "create_vectors ts dm ! i = window ts i dm" by (simp add: create_vectors_nth)
    have "filter (\<lambda>j. map (\<lambda>j. chebyshev (window ts i dm) (window ts j dm)) [0 ..< ?n] ! j < r \<and> j \<noteq> i) [0 ..< ?n]
          = filter (\<lambda>j. j \<noteq> i \<and> chebyshev (window ts i dm) (window ts j dm) < r) [0 ..< ?n]"
      by (rule filter_cong) auto
    then show ?thesis
      unfolding nth distances_window[OF dm il] by simp
  qed
  have "count_matches (create_vectors ts dm) r k = Inr (fold (\<lambda>i acc. acc + ?h i) [0 ..< k] 0)"
    unfolding count_matches_def using step by (intro foldM_pure) blast
  also have "fold (\<lambda>i acc. acc + ?h i) [0 ..< k] 0 = sum_list (map ?h [0 ..< k])"
    by (simp add: fold_add)
  also have "\<dots> = pair_count ts dm r k"
    unfolding pair_count_def length_filter_product by simp
  finally show ?thesis .
qed

text \<open>
  Claim C3, as the code has it. For an embedding dimension \<open>m \<ge> 1\<close>, \<open>B\<close> counts the
  pairs \<open>(i, j)\<close>, \<open>j \<noteq> i\<close>, of length-\<open>m\<close> windows at Chebyshev distance less than \<open>r\<close>
  with \<open>i\<close> among the first \<open>N - m\<close> windows (all but the last) and \<open>j\<close> among all
  \<open>N - m + 1\<close>; \<open>A\<close> is the same count for length \<open>m + 1\<close>, with \<open>i\<close> among the first
  \<open>N - m - 1\<close> and \<open>j\<close> among all \<open>N - m\<close> windows. The result is \<open>- ln (A / B)\<close>, and
  positive infinity, not an error, when \<open>A = 0\<close> or \<open>B = 0\<close>.
\<close>

theorem sample_entropy_counts:
  "1 \<le> m \<Longrightarrow>
   sample_entropy ts m r =
     Inr (let B = pair_count ts m r (length ts - m);
              A = pair_count ts (m + 1) r (length ts - (m + 1))
          in if 0 < B \<and> 0 < A then Fin (- ln (real A / real B)) else PInf)"
proof -
  assume m: "1 \<le> m"
  have B: "count_matches (create_vectors ts m) r (length ts - m) =
             Inr (pair_count ts m r (length ts - m))"
    using m by (intro count_matches_eq) simp_all
  have A: "count_matches (create_vectors ts (m + 1)) r (length ts - m - 1) =
             Inr (pair_count ts (m + 1) r (length ts - (m + 1)))"
    using count_matches_eq[of "m + 1" "length ts - (m + 1)" ts r] by simp
  show ?thesis
    unfolding sample_entropy_def Let_def A B
    by (simp add: np_log_def)
qed

lemma upt_1: "[0 ..< 1] = [0]"
  by (simp add: upt_rec)

lemma pair_count_zeros:
  "pair_count [0, 0, 0, 0] 2 1 2 = 4" "pair_count [0, 0, 0, 0] 3 1 1 = 1"
  "all_pair_count [0, 0, 0, 0] 2 1 = 6" "all_pair_count [0, 0, 0, 0] 3 1 = 2"
  by (simp_all add: all_pair_count_def pair_count_def chebyshev_def window_def upt_1 upt_2 upt_3)

lemma pair_count_increasing: "pair_count [1, 2, 3, 4] 2 (1 / 2) 2 = 0"
  by (simp add: pair_count_def chebyshev_def window_def upt_2 upt_3)

theorem sample_entropy_counts_witness:
  "(1::nat) \<le> 2 \<and> sample_entropy [0, 0, 0, 0] 2 1 = Inr (Fin (- ln (1 / 4))) \<and>
   sample_entropy [1, 2, 3, 4] 2 (1 / 2) = Inr PInf"
proof -
  have m: "(1::nat) \<le> 2" by simp
  have l: "length [0, 0, 0, 0 :: real] - 2 = 2" "length [0, 0, 0, 0 :: real] - 3 = 1"
    "length [1, 2, 3, 4 :: real] - 2 = 2" "(2::nat) + 1 = 3"
    by simp_all
  have "sample_entropy [0, 0, 0, 0] 2 1 = Inr (Fin (- ln (1 / 4)))"
    unfolding sample_entropy_counts[OF m] l pair_count_zeros Let_def by simp
  moreover have "sample_entropy [1, 2, 3, 4] 2 (1 / 2) = Inr PInf"
    unfolding sample_entropy_counts[OF m] l pair_count_increasing Let_def by simp
  ultimately show ?thesis by simp
qed

theorem sample_entropy_all_pairs_counterexample:
  "sample_entropy [0, 0, 0, 0] 2 1 \<noteq>
     Inr (Fin (- ln (real (all_pair_count [0, 0, 0, 0] (2 + 1) 1) /
                     real (all_pair_count [0, 0, 0, 0] 2 1))))"
proof -
  have "sample_entropy [0, 0, 0, 0] 2 1 = Inr (Fin (- ln (1 / 4)))"
    by (simp add: sample_entropy_def create_vectors_def window_def count_matches_def
          distances_def abs_diff_def np_log_def upt_1 upt_2 upt_3)
  moreover have "ln (1 / 4 :: real) \<noteq> ln (2 / 6)" by simp
  moreover have "(2::nat) + 1 = 3" by simp
  ultimately show ?thesis unfolding pair_count_zeros by (simp only: pair_count_zeros) simp
qed

end
